theory Spec2Isabelle
  imports Main "HOL-Library.List_Lexorder" "HOL-Library.AList"
begin

section \<open>Text\<close>

text \<open>
  A Python \<open>str\<close> is a sequence of Unicode code points, modelled as a list of naturals.
  The character classes below are those of Python 3 (\<open>str.isspace\<close>, the \<open>\s\<close> and
  \<open>\w\<close> of \<open>re\<close> on \<open>str\<close> patterns, \<open>str.lower\<close>). The whitespace class is
  complete. The word class \<open>is_word\<close> and the case mapping \<open>lower_cp\<close> are those
  of Python on ASCII text; the Unicode tables beyond ASCII are not reproduced. Every text
  that left \<open>clean_text\<close> is ASCII. Synonym keys, blacklist phrases and raw
  descriptions do not pass through \<open>clean_text\<close>: what is proved of the functions
  that read them is proved of ASCII text (\<open>isascii\<close>), where the model is exact.
\<close>

type_synonym ustring = "nat list"

definition u :: "string \<Rightarrow> ustring" where
  "u s = map of_char s"

definition is_space :: "nat \<Rightarrow> bool" where
  "is_space c \<longleftrightarrow>
     (9 \<le> c \<and> c \<le> 13) \<or> (28 \<le> c \<and> c \<le> 32) \<or> c = 133 \<or> c = 160 \<or> c = 5760 \<or>
     (8192 \<le> c \<and> c \<le> 8202) \<or> c = 8232 \<or> c = 8233 \<or> c = 8239 \<or> c = 8287 \<or> c = 12288"

definition is_word :: "nat \<Rightarrow> bool" where
  "is_word c \<longleftrightarrow>
     (48 \<le> c \<and> c \<le> 57) \<or> (65 \<le> c \<and> c \<le> 90) \<or> c = 95 \<or> (97 \<le> c \<and> c \<le> 122)"

definition lower_cp :: "nat \<Rightarrow> nat" where
  "lower_cp c = (if 65 \<le> c \<and> c \<le> 90 then c + 32 else c)"

definition lower :: "ustring \<Rightarrow> ustring" where
  "lower s = map lower_cp s"

definition strip :: "ustring \<Rightarrow> ustring" where
  "strip s = rev (dropWhile is_space (rev (dropWhile is_space s)))"

text \<open>\<open>s.split()\<close>: the maximal runs of non-whitespace, \<open>cur\<close> being the run read so far.\<close>

fun split_acc :: "ustring \<Rightarrow> ustring \<Rightarrow> ustring list" where
  "split_acc cur [] = (if cur = [] then [] else [cur])"
| "split_acc cur (c # cs) =
     (if is_space c then (if cur = [] then split_acc [] cs else cur # split_acc [] cs)
      else split_acc (cur @ [c]) cs)"

definition split :: "ustring \<Rightarrow> ustring list" where
  "split s = split_acc [] s"

text \<open>\<open>sep.join(xs)\<close>.\<close>

fun join :: "ustring \<Rightarrow> ustring list \<Rightarrow> ustring" where
  "join sep [] = []"
| "join sep [x] = x"
| "join sep (x # y # ys) = x @ sep @ join sep (y # ys)"

section \<open>ulits.py: clean_text\<close>

text \<open>
  \<open>re.sub(r"[^\w\s]", " ", text)\<close>: every character that is neither a word character
  nor whitespace becomes a space.
\<close>

definition sub_non_word :: "ustring \<Rightarrow> ustring" where
  "sub_non_word s = map (\<lambda>c. if is_word c \<or> is_space c then c else 32) s"

text \<open>
  \<open>re.sub(r"\s+", " ", text)\<close>: every maximal run of whitespace becomes one space;
  \<open>in_run\<close> says that the previous character was whitespace.
\<close>

fun sub_ws :: "bool \<Rightarrow> ustring \<Rightarrow> ustring" where
  "sub_ws in_run [] = []"
| "sub_ws in_run (c # cs) =
     (if is_space c then (if in_run then sub_ws True cs else 32 # sub_ws True cs)
      else c # sub_ws False cs)"

text \<open>
  \<open>text.encode("ascii", "ignore").decode("utf-8")\<close> keeps the code points below 128.
\<close>

definition ascii_ignore :: "ustring \<Rightarrow> ustring" where
  "ascii_ignore s = filter (\<lambda>c. c < 128) s"

text \<open>
  \<open>clean_text\<close>. The canonical decomposition \<open>unicodedata.normalize("NFD", _)\<close> belongs
  to the Python library and is the parameter \<open>nfd\<close>.
\<close>

definition clean_text :: "(ustring \<Rightarrow> ustring) \<Rightarrow> ustring \<Rightarrow> ustring" where
  "clean_text nfd txt =
     (let t1 = nfd txt;
          t2 = ascii_ignore t1;
          t3 = sub_non_word t2;
          t4 = sub_ws False t3
      in lower (strip t4))"

text \<open>A decomposition table of one entry (U+00E9 is e followed by U+0301), for examples.\<close>

definition nfd_sample :: "ustring \<Rightarrow> ustring" where
  "nfd_sample s = concat (map (\<lambda>c. if c = 233 then [101, 769] else [c]) s)"

section \<open>ulits.py: apply_synonyms\<close>

text \<open>
  A Python \<open>dict\<close> of synonyms is the list of its items in insertion order. The
  comprehension \<open>{k.lower(): v for k, v in synonyms.items()}\<close> stores the items one
  after the other, so a later item overrides an earlier one with the same lowered key.
\<close>

type_synonym synonyms = "(ustring \<times> ustring) list"

definition synonyms_lower :: "synonyms \<Rightarrow> (ustring \<rightharpoonup> ustring)" where
  "synonyms_lower syn = fold (\<lambda>(k, v) m. m(lower k \<mapsto> v)) syn Map.empty"

text \<open>
  One round of the loop over the words: the state is the pair of \<open>replaced_words\<close>
  and \<open>applied_transformations\<close>.
\<close>

definition synonym_step ::
  "(ustring \<rightharpoonup> ustring) \<Rightarrow> ustring \<Rightarrow> ustring list \<times> (ustring \<times> ustring) list \<Rightarrow>
   ustring list \<times> (ustring \<times> ustring) list" where
  "synonym_step sl word st =
     (case st of (replaced_words, applied) \<Rightarrow>
        (case sl (lower word) of
           Some replacement \<Rightarrow> (replaced_words @ [replacement], applied @ [(word, replacement)])
         | None \<Rightarrow> (replaced_words @ [word], applied)))"

definition apply_synonyms :: "ustring \<Rightarrow> synonyms \<Rightarrow> ustring \<times> (ustring \<times> ustring) list" where
  "apply_synonyms txt syn =
     (let sl = synonyms_lower syn;
          words = split txt;
          st = fold (synonym_step sl) words ([], [])
      in (join (u '' '') (fst st), snd st))"

section \<open>ulits.py: remove_blacklist\<close>

text \<open>
  The pattern is \<open>\b\<close>, the escaped phrase, \<open>\b\<close>, matched with \<open>re.IGNORECASE\<close>.
  \<open>\b\<close> holds between two positions when exactly one of the neighbouring characters is
  a word character; outside the text there is no word character.
\<close>

fun first_cp :: "ustring \<Rightarrow> nat option" where
  "first_cp [] = None"
| "first_cp (c # cs) = Some c"

fun last_cp :: "ustring \<Rightarrow> nat option" where
  "last_cp [] = None"
| "last_cp [c] = Some c"
| "last_cp (c # d # cs) = last_cp (d # cs)"

fun word_at :: "nat option \<Rightarrow> bool" where
  "word_at None = False"
| "word_at (Some c) = is_word c"

definition boundary :: "nat option \<Rightarrow> nat option \<Rightarrow> bool" where
  "boundary l r \<longleftrightarrow> word_at l \<noteq> word_at r"

text \<open>The phrase is a prefix of the text, up to case.\<close>

fun prefix_ci :: "ustring \<Rightarrow> ustring \<Rightarrow> bool" where
  "prefix_ci [] s = True"
| "prefix_ci (p # ps) [] = False"
| "prefix_ci (p # ps) (c # cs) = (lower_cp p = lower_cp c \<and> prefix_ci ps cs)"

text \<open>
  The pattern matches at the head of \<open>s\<close>, where \<open>prev\<close> is the character before
  \<open>s\<close> in the whole text (none at its start). The phrase is never empty: the loop of
  \<open>remove_blacklist\<close> skips a phrase that is empty after \<open>strip\<close>.
\<close>

definition match_here :: "ustring \<Rightarrow> nat option \<Rightarrow> ustring \<Rightarrow> bool" where
  "match_here phrase prev s \<longleftrightarrow>
     prefix_ci phrase s \<and> boundary prev (first_cp s) \<and>
     boundary (last_cp (take (length phrase) s)) (first_cp (drop (length phrase) s))"

text \<open>\<open>re.search(pattern, text)\<close> is not \<open>None\<close>: the pattern matches somewhere.\<close>

fun re_search_from :: "ustring \<Rightarrow> nat option \<Rightarrow> ustring \<Rightarrow> bool" where
  "re_search_from phrase prev [] = match_here phrase prev []"
| "re_search_from phrase prev (c # cs) =
     (match_here phrase prev (c # cs) \<or> re_search_from phrase (Some c) cs)"

definition re_search :: "ustring \<Rightarrow> ustring \<Rightarrow> bool" where
  "re_search phrase s = re_search_from phrase None s"

text \<open>
  \<open>re.sub(pattern, '', text)\<close> scans the text from the left, deletes each match and goes
  on behind it. \<open>skip\<close> counts the characters of the current match that are still to be
  deleted; the boundaries are those of the text as it was before the substitution.
\<close>

fun re_sub_from :: "ustring \<Rightarrow> nat \<Rightarrow> nat option \<Rightarrow> ustring \<Rightarrow> ustring" where
  "re_sub_from phrase skip prev [] = []"
| "re_sub_from phrase skip prev (c # cs) =
     (if 0 < skip then re_sub_from phrase (skip - 1) (Some c) cs
      else if match_here phrase prev (c # cs)
      then re_sub_from phrase (length phrase - 1) (Some c) cs
      else c # re_sub_from phrase 0 (Some c) cs)"

definition re_sub :: "ustring \<Rightarrow> ustring \<Rightarrow> ustring" where
  "re_sub phrase s = re_sub_from phrase 0 None s"

text \<open>The number of matches that the scan of \<open>re.sub\<close> finds and deletes.\<close>

fun count_matches_from :: "ustring \<Rightarrow> nat \<Rightarrow> nat option \<Rightarrow> ustring \<Rightarrow> nat" where
  "count_matches_from phrase skip prev [] = 0"
| "count_matches_from phrase skip prev (c # cs) =
     (if 0 < skip then count_matches_from phrase (skip - 1) (Some c) cs
      else if match_here phrase prev (c # cs)
      then Suc (count_matches_from phrase (length phrase - 1) (Some c) cs)
      else count_matches_from phrase 0 (Some c) cs)"

text \<open>
  \<open>sorted(blacklist, key=lambda x: -len(x.strip()))\<close>: Python's sort is stable, and so
  is \<open>sort_key\<close>.
\<close>

definition blacklist_sorted :: "ustring list \<Rightarrow> ustring list" where
  "blacklist_sorted blacklist = sort_key (\<lambda>x. - int (length (strip x))) blacklist"

text \<open>One round of the loop: the state is the pair of \<open>working_text\<close> and \<open>removed_items\<close>.\<close>

definition blacklist_step :: "ustring \<Rightarrow> ustring \<times> ustring list \<Rightarrow> ustring \<times> ustring list" where
  "blacklist_step phrase st =
     (case st of (working_text, removed_items) \<Rightarrow>
        (let phrase_clean = strip phrase in
         if phrase_clean = [] then (working_text, removed_items)
         else if re_search phrase_clean working_text
         then (re_sub phrase_clean working_text, removed_items @ [phrase_clean])
         else (working_text, removed_items)))"

definition remove_blacklist :: "ustring \<Rightarrow> ustring list \<Rightarrow> ustring \<times> ustring list" where
  "remove_blacklist txt blacklist =
     (let st = fold blacklist_step (blacklist_sorted blacklist) (txt, []);
          cleaned_text = join (u '' '') (split (strip (fst st)))
      in (cleaned_text, snd st))"

section \<open>ulits.py: extract_words\<close>

text \<open>
  \<open>re.findall(r"\b\w+\b", text.lower())\<close>: the maximal runs of word characters.
\<close>

fun findall_words :: "ustring \<Rightarrow> ustring \<Rightarrow> ustring list" where
  "findall_words cur [] = (if cur = [] then [] else [cur])"
| "findall_words cur (c # cs) =
     (if is_word c then findall_words (cur @ [c]) cs
      else if cur = [] then findall_words [] cs else cur # findall_words [] cs)"

text \<open>
  The loop keeps the first occurrence of every word longer than one character; \<open>seen\<close>
  holds exactly the words of \<open>unique_words\<close>.
\<close>

definition extract_words :: "ustring \<Rightarrow> ustring list" where
  "extract_words txt =
     fold (\<lambda>word unique_words.
             if word \<notin> set unique_words \<and> 1 < length word then unique_words @ [word]
             else unique_words)
          (findall_words [] (lower txt)) []"

section \<open>The fuzzywuzzy library\<close>

text \<open>
  The three scorers of \<open>fuzzywuzzy.fuzz\<close> that the matchers use. What a scorer returns
  for a query and a choice (an integer from 0 to 100) is the library's business: the
  scoring is the parameter \<open>fuzz\<close> of everything below.
\<close>

datatype scorer = token_sort_ratio | partial_ratio | token_set_ratio

type_synonym scoring = "scorer \<Rightarrow> ustring \<Rightarrow> ustring \<Rightarrow> nat"

text \<open>
  \<open>process.extractOne(query, choices, scorer=sc)\<close> scores every choice (the cutoff is
  0, so none is dropped) and returns \<open>max(..., key=score)\<close>, the first choice of
  maximal score with its score, or \<open>None\<close> when there is no choice.
\<close>

definition extractOne :: "scoring \<Rightarrow> scorer \<Rightarrow> ustring \<Rightarrow> ustring list \<Rightarrow> (ustring \<times> nat) option" where
  "extractOne fuzz sc query choices =
     (case choices of
        [] \<Rightarrow> None
      | c # cs \<Rightarrow>
          Some (fold (\<lambda>x best. if snd best < fuzz sc query x then (x, fuzz sc query x) else best)
                     cs (c, fuzz sc query c)))"

datatype py_error = TypeError | IndexError | ValueError

section \<open>The escalation cascade (logic.py 291-304, row_backend.py 350-367)\<close>

text \<open>
  Both matchers run the same lines. The state is the running \<open>(match, score)\<close>, or the
  \<open>TypeError\<close> that unpacking \<open>None\<close> raises, together with the list of the scorers
  that \<open>extractOne\<close> was called with so far.
\<close>

type_synonym cascade_state = "(py_error + ustring \<times> nat) \<times> scorer list"

definition primary :: "scoring \<Rightarrow> ustring \<Rightarrow> ustring list \<Rightarrow> cascade_state" where
  "primary fuzz query choices =
     (case extractOne fuzz token_sort_ratio query choices of
        None \<Rightarrow> (Inl TypeError, [token_sort_ratio])
      | Some ms \<Rightarrow> (Inr ms, [token_sort_ratio]))"

definition fallback ::
  "scoring \<Rightarrow> scorer \<Rightarrow> nat \<Rightarrow> ustring \<Rightarrow> ustring list \<Rightarrow> cascade_state \<Rightarrow> cascade_state" where
  "fallback fuzz sc limit query choices st =
     (case st of
        (Inl e, used) \<Rightarrow> (Inl e, used)
      | (Inr (m, score), used) \<Rightarrow>
          if score < limit then
            (case extractOne fuzz sc query choices of
               None \<Rightarrow> (Inl TypeError, used @ [sc])
             | Some (alt_match, alt_score) \<Rightarrow>
                 (Inr (if alt_score > score then (alt_match, alt_score) else (m, score)),
                  used @ [sc]))
          else (Inr (m, score), used))"

definition cascade :: "scoring \<Rightarrow> ustring \<Rightarrow> ustring list \<Rightarrow> cascade_state" where
  "cascade fuzz query choices =
     fallback fuzz token_set_ratio 80 query choices
       (fallback fuzz partial_ratio 70 query choices (primary fuzz query choices))"

text \<open>
  The result dictionary of a matcher. The batch matcher spells three of the keys
  \<open>match\<close>, \<open>matched\<close> and \<open>missing\<close>; the row matcher spells them as the fields here.
\<close>

record match_result =
  best_match :: ustring
  similarity :: nat
  matched_words :: ustring
  missing_words :: ustring
  catalog_id :: ustring
  categoria :: ustring
  variedad :: ustring
  color :: ustring
  grado :: ustring

definition empty_match_result :: match_result where
  "empty_match_result =
     \<lparr>best_match = [], similarity = 0, matched_words = [], missing_words = [],
      catalog_id = [], categoria = [], variedad = [], color = [], grado = []\<rparr>"

text \<open>
  The word analysis: the words of the input that are, and that are not, words of the
  match, each set sorted and joined by spaces. \<open>extract_words\<close> returns distinct words.
\<close>

definition word_overlap :: "ustring \<Rightarrow> ustring \<Rightarrow> ustring \<times> ustring" where
  "word_overlap cleaned_input m =
     (let input_words = extract_words cleaned_input;
          match_words = extract_words m
      in (join (u '' '') (sort (filter (\<lambda>w. w \<in> set match_words) input_words)),
          join (u '' '') (sort (filter (\<lambda>w. w \<notin> set match_words) input_words))))"

section \<open>logic.py: intelligent_fuzzy_match\<close>

text \<open>
  A row of the catalog frame \<open>df2\<close> of \<open>process_files\<close>: the cells of the catalog's own
  columns, and the column \<open>search_key\<close> that \<open>process_files\<close> appends behind them.
\<close>

record catalog_row =
  cells :: "ustring list"
  search_key :: ustring

definition df_columns :: "catalog_row \<Rightarrow> ustring list" where
  "df_columns r = cells r @ [search_key r]"

text \<open>\<open>df2.loc[row_idx, df2.columns[i]]\<close>; a column that does not exist is an \<open>IndexError\<close>.\<close>

definition column :: "catalog_row \<Rightarrow> nat \<Rightarrow> py_error + ustring" where
  "column r i = (if i < length (df_columns r) then Inr (df_columns r ! i) else Inl IndexError)"

text \<open>
  The attributes of the first row whose search key is the match, in the order
  \<open>catalog_id, categoria, variedad, color, grado\<close>; all empty when there is no such row.
\<close>

definition catalog_entry :: "catalog_row list \<Rightarrow> ustring \<Rightarrow> py_error + ustring list" where
  "catalog_entry df2 m =
     (case find (\<lambda>r. search_key r = m) df2 of
        None \<Rightarrow> Inr [[], [], [], [], []]
      | Some r \<Rightarrow>
          (let cid = (if 5 < length (df_columns r) then column r 5 else Inr []) in
           case (cid, column r 0, column r 1, column r 2, column r 3) of
             (Inr a, Inr b, Inr c, Inr d, Inr e) \<Rightarrow> Inr [a, b, c, d, e]
           | _ \<Rightarrow> Inl IndexError))"

text \<open>
  \<open>intelligent_fuzzy_match\<close>, with the scorers that it used. Every exception of the
  \<open>try\<close> block ends in the empty result of the \<open>except\<close> branch.
\<close>

definition intelligent_fuzzy_match ::
  "scoring \<Rightarrow> ustring \<Rightarrow> ustring list \<Rightarrow> catalog_row list \<Rightarrow> match_result \<times> scorer list" where
  "intelligent_fuzzy_match fuzz cleaned_input choices df2 =
     (case cascade fuzz cleaned_input choices of
        (Inl e, used) \<Rightarrow> (empty_match_result, used)
      | (Inr (m, score), used) \<Rightarrow>
          (case catalog_entry df2 m of
             Inl e \<Rightarrow> (empty_match_result, used)
           | Inr attrs \<Rightarrow>
               (\<lparr>best_match = m, similarity = score,
                 matched_words = fst (word_overlap cleaned_input m),
                 missing_words = snd (word_overlap cleaned_input m),
                 catalog_id = attrs ! 0, categoria = attrs ! 1, variedad = attrs ! 2,
                 color = attrs ! 3, grado = attrs ! 4\<rparr>, used)))"

section \<open>row_backend.py: _perform_fuzzy_matching\<close>

record catalog_item =
  item_search_key :: ustring
  item_categoria :: ustring
  item_variedad :: ustring
  item_color :: ustring
  item_grado :: ustring
  item_catalog_id :: ustring

definition perform_fuzzy_matching ::
  "scoring \<Rightarrow> ustring \<Rightarrow> catalog_item list \<Rightarrow> match_result \<times> scorer list" where
  "perform_fuzzy_matching fuzz cleaned_input catalog_data =
     (if strip cleaned_input = [] \<or> catalog_data = [] then (empty_match_result, [])
      else
        (let search_keys = filter (\<lambda>k. k \<noteq> []) (map item_search_key catalog_data) in
         if search_keys = [] then (empty_match_result, [])
         else
           (case cascade fuzz cleaned_input search_keys of
              (Inl e, used) \<Rightarrow> (empty_match_result, used)
            | (Inr (m, score), used) \<Rightarrow>
                (case find (\<lambda>item. item_search_key item = m) catalog_data of
                   None \<Rightarrow> (empty_match_result, used)
                 | Some matched_item \<Rightarrow>
                     (\<lparr>best_match = m, similarity = score,
                       matched_words = fst (word_overlap cleaned_input m),
                       missing_words = snd (word_overlap cleaned_input m),
                       catalog_id = item_catalog_id matched_item,
                       categoria = item_categoria matched_item,
                       variedad = item_variedad matched_item,
                       color = item_color matched_item,
                       grado = item_grado matched_item\<rparr>, used)))))"

section \<open>logic.py: perform_enhanced_matching\<close>

text \<open>
  A Python value of a cell or of a row dictionary: a string, an integer, a timestamp
  (in microseconds), or \<open>None\<close>.
\<close>

datatype pyval = PStr ustring | PInt nat | PTime int | PNone

text \<open>
  The nine result lists grow in step, one element per input; they are modelled as one
  list of records, a record holding the elements of the nine lists at one index.
\<close>

record result_row =
  col_best_match :: ustring
  col_similarity :: pyval
  col_matched_words :: ustring
  col_missing_words :: ustring
  col_catalog_id :: ustring
  col_categoria :: ustring
  col_variedad :: ustring
  col_color :: ustring
  col_grado :: ustring

definition NN :: ustring where
  "NN = u ''NN''"

text \<open>The branch \<open>cleaned == "NN"\<close>.\<close>

definition duplicate_result :: result_row where
  "duplicate_result =
     \<lparr>col_best_match = NN, col_similarity = PStr [], col_matched_words = [],
      col_missing_words = [], col_catalog_id = [], col_categoria = [], col_variedad = [],
      col_color = [], col_grado = []\<rparr>"

text \<open>What the loop appends from a cached result.\<close>

definition applied_result :: "match_result \<Rightarrow> result_row" where
  "applied_result r =
     \<lparr>col_best_match = best_match r, col_similarity = PInt (similarity r),
      col_matched_words = matched_words r, col_missing_words = missing_words r,
      col_catalog_id = catalog_id r, col_categoria = categoria r, col_variedad = variedad r,
      col_color = color r, col_grado = grado r\<rparr>"

text \<open>
  One round of the matching loop. The state is the \<open>cache\<close>, the inputs that
  \<open>intelligent_fuzzy_match\<close> was called with so far, and the rows appended so far.
\<close>

type_synonym matching_state = "(ustring \<rightharpoonup> match_result) \<times> ustring list \<times> result_row list"

definition matching_step ::
  "scoring \<Rightarrow> ustring list \<Rightarrow> catalog_row list \<Rightarrow> ustring \<Rightarrow> matching_state \<Rightarrow> matching_state" where
  "matching_step fuzz choices df2 cleaned st =
     (case st of (cache, calls, out) \<Rightarrow>
        if cleaned = NN then (cache, calls, out @ [duplicate_result])
        else
          (case cache cleaned of
             None \<Rightarrow>
               (let match_result = fst (intelligent_fuzzy_match fuzz cleaned choices df2)
                in (cache(cleaned \<mapsto> match_result), calls @ [cleaned],
                    out @ [applied_result match_result]))
           | Some result \<Rightarrow> (cache, calls, out @ [applied_result result])))"

text \<open>
  \<open>perform_enhanced_matching\<close> returns the rows; the model returns with them the inputs
  that were handed to \<open>intelligent_fuzzy_match\<close>, in the order of the calls. The progress
  callback only reports and is left out.
\<close>

definition perform_enhanced_matching ::
  "scoring \<Rightarrow> ustring list \<Rightarrow> catalog_row list \<Rightarrow> result_row list \<times> ustring list" where
  "perform_enhanced_matching fuzz cleaned_inputs df2 =
     (let choices = map search_key df2;
          st = fold (matching_step fuzz choices df2) cleaned_inputs (Map.empty, [], [])
      in (snd (snd st), fst (snd st)))"

text \<open>The matcher without the cache: every row is scored for itself.\<close>

definition naive_matching :: "scoring \<Rightarrow> ustring list \<Rightarrow> catalog_row list \<Rightarrow> result_row list" where
  "naive_matching fuzz cleaned_inputs df2 =
     map (\<lambda>cleaned. if cleaned = NN then duplicate_result
                     else applied_result
                            (fst (intelligent_fuzzy_match fuzz cleaned (map search_key df2) df2)))
         cleaned_inputs"

section \<open>logic.py: process_files\<close>

text \<open>
  A row of the vendor frame \<open>df1\<close>: column 0 is the description and column 2 the vendor
  name. The catalog frame arrives as rows of cells.
\<close>

record vendor_row =
  vendor_product_description :: ustring
  company_location :: ustring
  vendor_name :: ustring

text \<open>
  The duplicate key: \<open>str.strip\<close> and \<open>str.lower\<close> of the description and of the
  vendor name, joined by a bar. The raw cells are read as they are; \<open>lower\<close> is
  \<open>str.lower\<close> on ASCII cells.
\<close>

definition duplicate_key :: "vendor_row \<Rightarrow> ustring" where
  "duplicate_key r =
     lower (strip (vendor_product_description r)) @ u ''|'' @ lower (strip (vendor_name r))"

text \<open>The loop that marks the duplicates: the state is \<open>seen\<close> and \<open>cleaned_inputs_status\<close>.\<close>

datatype status = NN_status | PENDING

definition status_step :: "ustring \<Rightarrow> ustring set \<times> status list \<Rightarrow> ustring set \<times> status list" where
  "status_step key st =
     (case st of (seen, cleaned_inputs_status) \<Rightarrow>
        if key \<in> seen then (seen, cleaned_inputs_status @ [NN_status])
        else (insert key seen, cleaned_inputs_status @ [PENDING]))"

definition mark_duplicates :: "vendor_row list \<Rightarrow> status list" where
  "mark_duplicates df1 = snd (fold status_step (map duplicate_key df1) ({}, []))"

text \<open>
  The transformation of one row: what is appended to \<open>inputs\<close>, \<open>synonyms_applied\<close>
  and \<open>removed_blacklist\<close>. The arrow of the audit is U+2192.
\<close>

definition format_applied :: "(ustring \<times> ustring) list \<Rightarrow> ustring" where
  "format_applied applied = join (u '', '') (map (\<lambda>(o_word, n_word). o_word @ [8594] @ n_word) applied)"

definition transform_row ::
  "(ustring \<Rightarrow> ustring) \<Rightarrow> synonyms \<Rightarrow> ustring list \<Rightarrow> status \<Rightarrow> vendor_row \<Rightarrow>
   ustring \<times> ustring \<times> ustring" where
  "transform_row nfd merged_synonyms merged_blacklist st row =
     (case st of
        NN_status \<Rightarrow> (NN, [], [])
      | PENDING \<Rightarrow>
          (let raw_text = vendor_product_description row;
               cleaned = clean_text nfd raw_text;
               (cleaned1, applied) = apply_synonyms cleaned merged_synonyms;
               (cleaned2, removed) = remove_blacklist cleaned1 merged_blacklist
           in (strip cleaned2, format_applied applied, join (u '' '') removed)))"

text \<open>
  The search key of a catalog row: the first four cells joined by spaces, stripped and
  cleaned.
\<close>

definition prepare_catalog :: "(ustring \<Rightarrow> ustring) \<Rightarrow> ustring list list \<Rightarrow> catalog_row list" where
  "prepare_catalog nfd df2 =
     map (\<lambda>cs. \<lparr>cells = cs, search_key = clean_text nfd (strip (join (u '' '') (take 4 cs)))\<rparr>) df2"

text \<open>A row of the frame that \<open>process_files\<close> returns.\<close>

record enriched_row =
  source :: vendor_row
  cleaned_input :: ustring
  applied_synonyms :: ustring
  removed_blacklist_words :: ustring
  enrichment :: result_row

text \<open>
  What \<open>process_files\<close> yields: the returned frame, the inputs handed to
  \<open>intelligent_fuzzy_match\<close>, and the frame handed to \<open>save_client_processed_data\<close>
  (\<open>None\<close> when it is not called).
\<close>

record batch_outcome =
  frame :: "enriched_row list"
  engine_calls :: "ustring list"
  saved :: "enriched_row list option"

text \<open>
  \<open>process_files\<close>. The rules arrive resolved: \<open>merged_synonyms\<close> and
  \<open>merged_blacklist\<close> are what lines 79 to 95 compute from the dictionary and the
  client's stored rules. The columns for the user's actions and the processing metadata,
  and the progress callback, carry no result of the matching and are left out. A frame
  has the columns of its rows; the vendor frame has three columns by its type. The test
  \<open>if client_id:\<close> holds of a string that is not empty: neither \<open>None\<close> nor
  \<open>""\<close> saves anything.
\<close>

definition process_files ::
  "scoring \<Rightarrow> (ustring \<Rightarrow> ustring) \<Rightarrow> vendor_row list \<Rightarrow> ustring list list \<Rightarrow> synonyms \<Rightarrow>
   ustring list \<Rightarrow> ustring option \<Rightarrow> py_error + batch_outcome" where
  "process_files fuzz nfd df1 df2 merged_synonyms merged_blacklist client_id =
     (if df1 = [] \<or> df2 = [] then Inl ValueError
      else if \<exists>cs \<in> set df2. length cs < 4 then Inl ValueError
      else
        (let cleaned_inputs_status = mark_duplicates df1;
             transformed = map (\<lambda>(st, row). transform_row nfd merged_synonyms merged_blacklist st row)
                               (zip cleaned_inputs_status df1);
             df2_work = prepare_catalog nfd df2;
             (results, calls) = perform_enhanced_matching fuzz (map fst transformed) df2_work;
             df1_work = map (\<lambda>(row, (inp, syn, rem), res).
                               \<lparr>source = row, cleaned_input = inp, applied_synonyms = syn,
                                removed_blacklist_words = rem, enrichment = res\<rparr>)
                            (zip df1 (zip transformed results));
             df_to_save = filter (\<lambda>r. cleaned_input r \<noteq> NN) df1_work
         in Inr \<lparr>frame = df1_work, engine_calls = calls,
                 saved = (if client_id \<noteq> None \<and> client_id \<noteq> Some [] \<and> df_to_save \<noteq> []
                          then Some df_to_save else None)\<rparr>))"

section \<open>backend.py: the rule store\<close>

text \<open>
  The world outside the row processor: the table \<open>synonyms_blacklist\<close> (its active
  synonym rows and blacklist rows), the table \<open>product_catalog\<close> in the order of the
  query, whether each of the three database operations succeeds, the number of attempts
  to read the catalog, and the clock in microseconds.
\<close>

record rule_table =
  synonym_rows :: "(ustring \<times> ustring) list"
  blacklist_rows :: "ustring list"

record db_catalog_row =
  db_categoria :: "ustring option"
  db_variedad :: "ustring option"
  db_color :: "ustring option"
  db_grado :: "ustring option"
  db_catalog_id :: ustring
  db_search_key :: ustring

record world =
  rules_db :: rule_table
  rules_readable :: bool
  rules_writable :: bool
  product_catalog :: "db_catalog_row list"
  catalog_readable :: bool
  catalog_queries :: nat
  now :: int

text \<open>The dictionary \<open>{'synonyms': ..., 'blacklist': {'input': ...}}\<close>.\<close>

record client_rules =
  rule_synonyms :: synonyms
  rule_blacklist :: "ustring list"

text \<open>
  \<open>get_client_synonyms_blacklist\<close>: the dictionary built from the synonym rows (a
  repeated key keeps its place and takes the later value) and the list of the blacklist
  rows; on any exception, the empty rules.
\<close>

definition get_client_synonyms_blacklist :: "world \<Rightarrow> client_rules" where
  "get_client_synonyms_blacklist w =
     (if rules_readable w
      then \<lparr>rule_synonyms = fold (\<lambda>(k, v) d. AList.update k v d) (synonym_rows (rules_db w)) [],
            rule_blacklist = blacklist_rows (rules_db w)\<rparr>
      else \<lparr>rule_synonyms = [], rule_blacklist = []\<rparr>)"

text \<open>
  \<open>update_client_synonyms_blacklist\<close>: one transaction deletes the client's rows and
  inserts the given ones; on any exception nothing is committed and the answer is
  \<open>False\<close>. The list of one-item dictionaries \<open>synonyms_list\<close> is the list of its items.
\<close>

definition update_client_synonyms_blacklist ::
  "world \<Rightarrow> (ustring \<times> ustring) list \<Rightarrow> ustring list \<Rightarrow> bool \<times> world" where
  "update_client_synonyms_blacklist w synonyms_list blacklist_list =
     (if rules_writable w
      then (True, w\<lparr>rules_db := \<lparr>synonym_rows = synonyms_list, blacklist_rows = blacklist_list\<rparr>\<rparr>)
      else (False, w))"

section \<open>row_backend.py: EnhancedRowProcessor\<close>

text \<open>A row dictionary, and \<open>row_data.get(key, default)\<close>.\<close>

type_synonym row = "string \<rightharpoonup> pyval"

definition get :: "row \<Rightarrow> string \<Rightarrow> pyval \<Rightarrow> pyval" where
  "get r k d = (case r k of None \<Rightarrow> d | Some v \<Rightarrow> v)"

text \<open>
  \<open>str(v)\<close>. A number is written in decimal. The calendar text of a timestamp is not
  reproduced: the model writes its count of microseconds, which like the calendar text
  is never blank.
\<close>

fun decimal_fuel :: "nat \<Rightarrow> nat \<Rightarrow> ustring" where
  "decimal_fuel 0 n = []"
| "decimal_fuel (Suc f) n =
     (if n < 10 then [48 + n] else decimal_fuel f (n div 10) @ [48 + n mod 10])"

definition decimal :: "nat \<Rightarrow> ustring" where
  "decimal n = decimal_fuel (Suc n) n"

fun py_str :: "pyval \<Rightarrow> ustring" where
  "py_str (PStr s) = s"
| "py_str (PInt n) = decimal n"
| "py_str (PTime t) = decimal (nat \<bar>t\<bar>)"
| "py_str PNone = u ''None''"

record processor =
  catalog_cache :: "catalog_item list option"
  cache_timestamp :: "int option"
  cache_ttl :: int

text \<open>\<open>EnhancedRowProcessor.__init__\<close>.\<close>

definition new_processor :: processor where
  "new_processor = \<lparr>catalog_cache = None, cache_timestamp = None, cache_ttl = 300\<rparr>"

text \<open>\<open>s.strip('"')\<close>.\<close>

definition strip_quotes :: "ustring \<Rightarrow> ustring" where
  "strip_quotes s = rev (dropWhile (\<lambda>c. c = 34) (rev (dropWhile (\<lambda>c. c = 34) s)))"

text \<open>
  \<open>_update_synonyms_blacklist_from_row\<close>: its answer and the world it leaves. The colon
  is code point 58; \<open>word.split(':', 1)\<close> cuts at the first colon.
\<close>

definition update_synonyms_blacklist_from_row :: "world \<Rightarrow> row \<Rightarrow> bool \<times> world" where
  "update_synonyms_blacklist_from_row w row_data =
     (let action = lower (strip (py_str (get row_data ''action'' (PStr []))));
          word = strip (py_str (get row_data ''word'' (PStr [])))
      in if action = [] \<or> word = [] then (True, w)
         else
           (let current_rules = get_client_synonyms_blacklist w in
            if action = u ''synonym'' \<and> 58 \<in> set word then
              (let original = strip_quotes (strip (takeWhile (\<lambda>c. c \<noteq> 58) word));
                   replacement = strip_quotes (strip (tl (dropWhile (\<lambda>c. c \<noteq> 58) word)))
               in if original \<noteq> [] \<and> replacement \<noteq> [] then
                    update_client_synonyms_blacklist w
                      (AList.update original replacement (rule_synonyms current_rules))
                      (rule_blacklist current_rules)
                  else (True, w))
            else if action = u ''blacklist'' then
              (if word \<notin> set (rule_blacklist current_rules) then
                 update_client_synonyms_blacklist w
                   (rule_synonyms current_rules) (rule_blacklist current_rules @ [word])
               else (True, w))
            else (True, w)))"

text \<open>
  \<open>(current_time - self._cache_timestamp).seconds\<close>. A \<open>timedelta\<close> is kept as days,
  seconds and microseconds, the seconds from 0 to 86399; \<open>.seconds\<close> reads the seconds
  field. The argument is the difference in microseconds.
\<close>

definition timedelta_seconds :: "int \<Rightarrow> int" where
  "timedelta_seconds d = (d div 1000000) mod 86400"

text \<open>\<open>f"{x}"\<close> of a nullable column, and \<open>x or ''\<close>.\<close>

fun fmt :: "ustring option \<Rightarrow> ustring" where
  "fmt None = u ''None''"
| "fmt (Some s) = s"

fun or_empty :: "ustring option \<Rightarrow> ustring" where
  "or_empty None = []"
| "or_empty (Some s) = s"

definition format_catalog_row :: "(ustring \<Rightarrow> ustring) \<Rightarrow> db_catalog_row \<Rightarrow> catalog_item" where
  "format_catalog_row nfd r =
     \<lparr>item_search_key =
        (if db_search_key r = []
         then clean_text nfd (strip (fmt (db_categoria r) @ u '' '' @ fmt (db_variedad r) @ u '' '' @
                                     fmt (db_color r) @ u '' '' @ fmt (db_grado r)))
         else db_search_key r),
      item_categoria = or_empty (db_categoria r),
      item_variedad = or_empty (db_variedad r),
      item_color = or_empty (db_color r),
      item_grado = or_empty (db_grado r),
      item_catalog_id = db_catalog_id r\<rparr>"

text \<open>
  \<open>_get_catalog_data\<close>: the catalog data, the processor and the world it leaves. A
  failed read ends in the \<open>except\<close> branch, \<open>self._catalog_cache or []\<close>.
\<close>

definition get_catalog_data ::
  "(ustring \<Rightarrow> ustring) \<Rightarrow> processor \<Rightarrow> world \<Rightarrow> bool \<Rightarrow> catalog_item list \<times> processor \<times> world" where
  "get_catalog_data nfd p w force_refresh =
     (let current_time = now w in
      case (catalog_cache p, cache_timestamp p) of
        (Some cached, Some stamp) \<Rightarrow>
          if \<not> force_refresh \<and> timedelta_seconds (current_time - stamp) < cache_ttl p
          then (cached, p, w)
          else if catalog_readable w
          then (let catalog_data = map (format_catalog_row nfd) (product_catalog w)
                in (catalog_data,
                    p\<lparr>catalog_cache := Some catalog_data, cache_timestamp := Some current_time\<rparr>,
                    w\<lparr>catalog_queries := Suc (catalog_queries w)\<rparr>))
          else (cached, p, w\<lparr>catalog_queries := Suc (catalog_queries w)\<rparr>)
      | (c, t) \<Rightarrow>
          if catalog_readable w
          then (let catalog_data = map (format_catalog_row nfd) (product_catalog w)
                in (catalog_data,
                    p\<lparr>catalog_cache := Some catalog_data, cache_timestamp := Some current_time\<rparr>,
                    w\<lparr>catalog_queries := Suc (catalog_queries w)\<rparr>))
          else ((case c of None \<Rightarrow> [] | Some cached \<Rightarrow> cached), p,
                w\<lparr>catalog_queries := Suc (catalog_queries w)\<rparr>))"

text \<open>
  What \<open>reprocess_single_row\<close> yields: the pair that it returns, the processor and the
  world that it leaves, and the inputs that it handed to \<open>_perform_fuzzy_matching\<close>.
\<close>

record reprocess_outcome =
  success :: bool
  returned_row :: row
  processor_after :: processor
  world_after :: world
  matcher_inputs :: "ustring list"

definition reprocess_single_row ::
  "scoring \<Rightarrow> (ustring \<Rightarrow> ustring) \<Rightarrow> processor \<Rightarrow> world \<Rightarrow> row \<Rightarrow> bool \<Rightarrow> reprocess_outcome" where
  "reprocess_single_row fuzz nfd p w row_data update_synonyms_blacklist =
     (let w1 = (if update_synonyms_blacklist
                then snd (update_synonyms_blacklist_from_row w row_data) else w);
          rules = get_client_synonyms_blacklist w1;
          original_input = py_str (get row_data ''vendor_product_description'' (PStr []))
      in if strip original_input = []
         then \<lparr>success = False, returned_row = row_data, processor_after = p,
                world_after = w1, matcher_inputs = []\<rparr>
         else
           (let cleaned_input = clean_text nfd original_input;
                (cleaned_with_synonyms, applied) = apply_synonyms cleaned_input (rule_synonyms rules);
                (final_cleaned, removed_blacklist) =
                   remove_blacklist cleaned_with_synonyms (rule_blacklist rules);
                (catalog_data, p1, w2) = get_catalog_data nfd p w1 False;
                match_result = fst (perform_fuzzy_matching fuzz final_cleaned catalog_data);
                updated_row = row_data
                  (''cleaned_input'' \<mapsto> PStr final_cleaned,
                   ''applied_synonyms'' \<mapsto> PStr (format_applied applied),
                   ''removed_blacklist_words'' \<mapsto> PStr (join (u '' '') removed_blacklist),
                   ''best_match'' \<mapsto> PStr (best_match match_result),
                   ''similarity_percentage'' \<mapsto> PInt (similarity match_result),
                   ''matched_words'' \<mapsto> PStr (matched_words match_result),
                   ''missing_words'' \<mapsto> PStr (missing_words match_result),
                   ''catalog_id'' \<mapsto> PStr (catalog_id match_result),
                   ''categoria'' \<mapsto> PStr (categoria match_result),
                   ''variedad'' \<mapsto> PStr (variedad match_result),
                   ''color'' \<mapsto> PStr (color match_result),
                   ''grado'' \<mapsto> PStr (grado match_result),
                   ''updated_at'' \<mapsto> PTime (now w2))
            in \<lparr>success = True, returned_row = updated_row, processor_after = p1,
                 world_after = w2, matcher_inputs = [final_cleaned]\<rparr>))"

section \<open>Predicates and sample data of the proofs\<close>

text \<open>\<open>str.isascii\<close>: every code point is below 128.\<close>

definition isascii :: "ustring \<Rightarrow> bool" where
  "isascii s \<longleftrightarrow> (\<forall>c\<in>set s. c < 128)"

text \<open>No two whitespace characters stand side by side.\<close>

definition single_spaced :: "ustring \<Rightarrow> bool" where
  "single_spaced s = successively (\<lambda>a b. \<not> (is_space a \<and> is_space b)) s"

text \<open>The only whitespace character is the space.\<close>

definition plain_spaces :: "ustring \<Rightarrow> bool" where
  "plain_spaces s \<longleftrightarrow> (\<forall>c\<in>set s. is_space c \<longrightarrow> c = 32)"

text \<open>
  The shape of a cleaned text: lower-case ASCII word characters and single spaces, with
  no space at either end.
\<close>

definition normal_form :: "ustring \<Rightarrow> bool" where
  "normal_form s \<longleftrightarrow>
     (\<forall>c\<in>set s. c < 128 \<and> (is_word c \<or> c = 32) \<and> lower_cp c = c) \<and> single_spaced s \<and>
     (s = [] \<or> (\<not> is_space (hd s) \<and> \<not> is_space (last s)))"

definition sample_raw :: ustring where
  "sample_raw = u ''  Caf'' @ [233] @ u '' --  ROSE_1! x ''"

definition sample_frame :: "catalog_row list" where
  "sample_frame =
     [\<lparr>cells = [u ''Roses'', u ''Freedom'', u ''Red'', u ''40cm''],
       search_key = u ''roses freedom red 40cm''\<rparr>]"

definition sample_fuzz :: scoring where
  "sample_fuzz sc q c =
     (case sc of
        token_sort_ratio \<Rightarrow> (if q = c then 100 else 60)
      | partial_ratio \<Rightarrow> (if length q \<le> length c then 75 else 50)
      | token_set_ratio \<Rightarrow> 78)"

definition sample_frame2 :: "catalog_row list" where
  "sample_frame2 =
     [\<lparr>cells = [u ''Roses'', u ''Freedom'', u ''Red'', u ''40cm''],
       search_key = u ''roses freedom red 40cm''\<rparr>,
      \<lparr>cells = [u ''Tulip'', u ''Dutch'', u ''Red'', u ''50cm'', u ''x'', u ''T-1''],
       search_key = u ''tulip dutch red 50cm''\<rparr>]"

definition sample_catalog :: "catalog_item list" where
  "sample_catalog =
     [\<lparr>item_search_key = u ''roses freedom red 40cm'', item_categoria = u ''Roses'',
       item_variedad = u ''Freedom'', item_color = u ''Red'', item_grado = u ''40cm'',
       item_catalog_id = u ''R-1''\<rparr>,
      \<lparr>item_search_key = u ''tulip dutch red 50cm'', item_categoria = u ''Tulip'',
       item_variedad = u ''Dutch'', item_color = u ''Red'', item_grado = u ''50cm'',
       item_catalog_id = u ''T-1''\<rparr>]"

definition sample_inputs :: "ustring list" where
  "sample_inputs = [u ''roses red'', NN, u ''tulip'', u ''roses red'']"

definition sample_world :: world where
  "sample_world =
     \<lparr>rules_db = \<lparr>synonym_rows = [(u ''rosas'', u ''roses'')], blacklist_rows = [u ''stems'']\<rparr>,
      rules_readable = True, rules_writable = True,
      product_catalog =
        [\<lparr>db_categoria = Some (u ''Tulip''), db_variedad = Some (u ''Dutch''),
          db_color = Some (u ''Red''), db_grado = Some (u ''50cm''), db_catalog_id = u ''T-1'',
          db_search_key = u ''tulip dutch red 50cm''\<rparr>],
      catalog_readable = True, catalog_queries = 0, now = 0\<rparr>"

definition cached_processor :: "int \<Rightarrow> processor" where
  "cached_processor stamp =
     \<lparr>catalog_cache = Some sample_catalog, cache_timestamp = Some stamp, cache_ttl = 300\<rparr>"

definition sample_row_blank :: row where
  "sample_row_blank =
     [''vendor_product_description'' \<mapsto> PStr (u ''   ''),
      ''action'' \<mapsto> PStr (u ''Blacklist''),
      ''word'' \<mapsto> PStr (u '' bunch '')]"

definition sample_row :: row where
  "sample_row =
     [''vendor_product_description'' \<mapsto> PStr (u ''Red Roses''),
      ''action'' \<mapsto> PStr (u ''blacklist''),
      ''word'' \<mapsto> PStr (u ''bunch'')]"

definition broken_world :: world where
  "broken_world =
     sample_world\<lparr>rules_readable := False, rules_writable := False, catalog_readable := False\<rparr>"

text \<open>
  A whole-word occurrence of a phrase in a text, said without a scan: the text is
  \<open>pre @ m @ post\<close>, where \<open>m\<close> is the phrase up to case, and there is a word boundary
  between \<open>pre\<close> and \<open>m\<close> and between \<open>m\<close> and \<open>post\<close>.
\<close>

definition occurs :: "ustring \<Rightarrow> ustring \<Rightarrow> bool" where
  "occurs phrase s \<longleftrightarrow>
     (\<exists>pre m post. s = pre @ m @ post \<and> length m = length phrase \<and> lower m = lower phrase \<and>
        boundary (last_cp pre) (first_cp m) \<and> boundary (last_cp m) (first_cp post))"

definition count_matches :: "ustring \<Rightarrow> ustring \<Rightarrow> nat" where
  "count_matches phrase s = count_matches_from phrase 0 None s"

definition collision_row :: vendor_row where
  "collision_row =
     \<lparr>vendor_product_description = u ''x'', company_location = u ''Quito'', vendor_name = u ''v''\<rparr>"

definition sample_cells :: "ustring list list" where
  "sample_cells = [[u ''Roses'', u ''Freedom'', u ''Red'', u ''40cm'']]"

section \<open>Facts about the text functions\<close>

lemmas text_defs = u_def is_space_def is_word_def lower_cp_def lower_def strip_def split_def
  sub_non_word_def ascii_ignore_def

lemma is_space_32: "is_space 32"
  by (simp add: is_space_def)

lemma is_word_not_space: "is_word c \<Longrightarrow> \<not> is_space c"
  by (auto simp: is_word_def is_space_def)

lemma is_space_lower_cp: "is_space (lower_cp c) = is_space c"
  by (auto simp: is_space_def lower_cp_def)

lemma is_word_lower_cp: "is_word (lower_cp c) = is_word c"
  by (auto simp: is_word_def lower_cp_def)

lemma lower_cp_idem: "lower_cp (lower_cp c) = lower_cp c"
  by (auto simp: lower_cp_def)

lemma lower_cp_less: "c < 128 \<Longrightarrow> lower_cp c < 128"
  by (auto simp: lower_cp_def)

lemma sub_ws_fixed:
  "plain_spaces s \<Longrightarrow> single_spaced s \<Longrightarrow> (in_run \<longrightarrow> s = [] \<or> \<not> is_space (hd s)) \<Longrightarrow>
   sub_ws in_run s = s"
proof (induction s arbitrary: in_run)
  case Nil
  then show ?case by simp
next
  case (Cons c cs)
  have 1: "plain_spaces cs" using Cons.prems(1) by (simp add: plain_spaces_def)
  have 2: "single_spaced cs" using Cons.prems(2) by (auto simp: single_spaced_def successively_Cons)
  show ?case
  proof (cases "is_space c")
    case True
    then have "c = 32" "\<not> in_run" "cs = [] \<or> \<not> is_space (hd cs)"
      using Cons.prems by (auto simp: plain_spaces_def single_spaced_def successively_Cons)
    then show ?thesis using True Cons.IH[OF 1 2, of True] by simp
  next
    case False
    then show ?thesis using Cons.IH[OF 1 2, of False] by simp
  qed
qed

lemma sub_ws_plain_spaces: "plain_spaces (sub_ws b s)"
  by (induction s arbitrary: b) (auto simp: plain_spaces_def is_space_32)

lemma sub_ws_hd: "sub_ws True s = [] \<or> \<not> is_space (hd (sub_ws True s))"
  by (induction s) auto

lemma sub_ws_single_spaced: "single_spaced (sub_ws b s)"
proof (induction s arbitrary: b)
  case Nil
  then show ?case by (simp add: single_spaced_def)
next
  case (Cons c cs)
  show ?case
  proof (cases "is_space c")
    case True
    have "single_spaced (32 # sub_ws True cs)"
      using sub_ws_hd[of cs] Cons.IH[of True] by (auto simp: single_spaced_def successively_Cons)
    then show ?thesis using True Cons.IH by simp
  next
    case False
    then show ?thesis using Cons.IH[of False] by (auto simp: single_spaced_def successively_Cons)
  qed
qed

lemma sub_ws_set: "set (sub_ws b s) \<subseteq> insert 32 (set s)"
  by (induction s arbitrary: b) auto

lemma single_spaced_dropWhile: "single_spaced s \<Longrightarrow> single_spaced (dropWhile P s)"
  by (induction s) (auto simp: single_spaced_def successively_Cons)

lemma single_spaced_rev: "single_spaced (rev s) = single_spaced s"
  unfolding single_spaced_def successively_rev by (rule successively_cong) auto

lemma single_spaced_strip: "single_spaced s \<Longrightarrow> single_spaced (strip s)"
  by (simp add: strip_def single_spaced_rev single_spaced_dropWhile)

lemma set_strip: "set (strip s) \<subseteq> set s"
  by (auto simp: strip_def dest!: set_dropWhileD)

lemma last_dropWhile: "dropWhile P s \<noteq> [] \<Longrightarrow> last (dropWhile P s) = last s"
  by (induction s) auto

lemma strip_ends:
  "strip s = [] \<or> (\<not> is_space (hd (strip s)) \<and> \<not> is_space (last (strip s)))"
proof (cases "strip s = []")
  case True
  then show ?thesis by simp
next
  case False
  define a where "a = dropWhile is_space s"
  define b where "b = dropWhile is_space (rev a)"
  have sb: "strip s = rev b" by (simp add: strip_def a_def b_def)
  have bne: "b \<noteq> []" using False sb by simp
  then have ane: "a \<noteq> []" by (auto simp: b_def)
  have "\<not> is_space (hd b)" using bne hd_dropWhile[of is_space "rev a"] by (simp add: b_def)
  moreover have "last b = last (rev a)"
    using bne last_dropWhile[of is_space "rev a"] by (simp add: b_def)
  then have "last b = hd a" using ane by (simp add: last_rev)
  then have "\<not> is_space (last b)" using ane hd_dropWhile[of is_space s] by (simp add: a_def)
  ultimately show ?thesis using bne by (simp add: sb hd_rev last_rev)
qed

lemma strip_fixed:
  assumes "s = [] \<or> (\<not> is_space (hd s) \<and> \<not> is_space (last s))"
  shows "strip s = s"
proof (cases s)
  case Nil
  then show ?thesis by (simp add: strip_def)
next
  case (Cons c cs)
  then have h: "\<not> is_space (hd s)" "\<not> is_space (last s)" using assms by auto
  have 1: "dropWhile is_space s = s" using h(1) Cons by simp
  have "hd (rev s) = last s" using Cons by (simp add: hd_rev)
  then have 2: "dropWhile is_space (rev s) = rev s" using h(2) Cons
    by (simp add: dropWhile_eq_self_iff)
  show ?thesis by (simp add: strip_def 1 2)
qed

section \<open>clean_text is idempotent\<close>

lemma clean_text_normal_form: "normal_form (clean_text nfd x)"
proof -
  define t3 where "t3 = sub_non_word (ascii_ignore (nfd x))"
  define t4 where "t4 = sub_ws False t3"
  define t5 where "t5 = strip t4"
  have y: "clean_text nfd x = lower t5"
    by (simp add: clean_text_def t3_def t4_def t5_def Let_def)
  have c3: "\<forall>c\<in>set t3. c < 128 \<and> (is_word c \<or> is_space c)"
    by (auto simp: t3_def sub_non_word_def ascii_ignore_def is_space_32)
  have c4: "\<forall>c\<in>set t4. c < 128 \<and> (is_word c \<or> c = 32)"
  proof
    fix c assume c: "c \<in> set t4"
    then have "c = 32 \<or> c \<in> set t3" using sub_ws_set[of False t3] by (auto simp: t4_def)
    moreover have "is_space c \<longrightarrow> c = 32" using c sub_ws_plain_spaces[of False t3]
      by (auto simp: t4_def plain_spaces_def)
    ultimately show "c < 128 \<and> (is_word c \<or> c = 32)" using c3 by auto
  qed
  have c5: "\<forall>c\<in>set t5. c < 128 \<and> (is_word c \<or> c = 32)"
    using c4 set_strip[of t4] by (auto simp: t5_def)
  have n5: "single_spaced t5" by (simp add: t5_def t4_def single_spaced_strip sub_ws_single_spaced)
  have e5: "t5 = [] \<or> (\<not> is_space (hd t5) \<and> \<not> is_space (last t5))"
    using strip_ends[of t4] by (simp add: t5_def)
  have a: "\<forall>c\<in>set (lower t5). c < 128 \<and> (is_word c \<or> c = 32) \<and> lower_cp c = c"
  proof
    fix c assume "c \<in> set (lower t5)"
    then obtain d where d: "d \<in> set t5" "c = lower_cp d" by (auto simp: lower_def)
    then have "d < 128" "is_word d \<or> d = 32" using c5 by auto
    then show "c < 128 \<and> (is_word c \<or> c = 32) \<and> lower_cp c = c"
      unfolding d(2) by (auto simp: lower_cp_less is_word_lower_cp lower_cp_idem) (simp add: lower_cp_def)
  qed
  have b: "single_spaced (lower t5)" using n5
    by (simp add: single_spaced_def lower_def successively_map is_space_lower_cp)
  have c: "lower t5 = [] \<or> (\<not> is_space (hd (lower t5)) \<and> \<not> is_space (last (lower t5)))"
    using e5 by (cases "t5 = []") (auto simp: lower_def hd_map last_map is_space_lower_cp)
  show ?thesis unfolding y normal_form_def using a b c by blast
qed

lemma clean_text_fixed:
  assumes "nfd y = y" "normal_form y"
  shows "clean_text nfd y = y"
proof -
  have all: "\<forall>c\<in>set y. c < 128 \<and> (is_word c \<or> c = 32) \<and> lower_cp c = c"
    and n: "single_spaced y" and e: "y = [] \<or> (\<not> is_space (hd y) \<and> \<not> is_space (last y))"
    using assms(2) by (auto simp: normal_form_def)
  have 1: "ascii_ignore y = y" using all by (simp add: ascii_ignore_def)
  have 2: "sub_non_word y = y" unfolding sub_non_word_def
  proof (rule map_idI)
    fix c assume "c \<in> set y"
    then have "is_word c \<or> c = 32" using all by blast
    then show "(if is_word c \<or> is_space c then c else 32) = c" using is_space_32 by auto
  qed
  have w: "plain_spaces y" using all is_word_not_space by (auto simp: plain_spaces_def)
  have 3: "sub_ws False y = y" using sub_ws_fixed[OF w n] by simp
  have 4: "strip y = y" using strip_fixed[OF e] .
  have 5: "lower y = y" using all by (auto simp: lower_def intro: map_idI)
  show ?thesis by (simp add: clean_text_def assms(1) 1 2 3 4 5)
qed

lemma nfd_sample_ascii: "\<forall>c\<in>set s. c < 128 \<Longrightarrow> nfd_sample s = s"
  by (induction s) (auto simp: nfd_sample_def)

lemma clean_text_sample: "clean_text nfd_sample sample_raw = u ''cafe rose_1 x''"
  by (simp add: clean_text_def sample_raw_def nfd_sample_def text_defs)

text \<open>
  Claim C7. The normalizer is idempotent: cleaning a cleaned text changes nothing. The
  canonical decomposition of the Python library is a parameter; what the proof needs of
  it is that it leaves a text of ASCII characters as it is, which holds of NFD since no
  ASCII character has a decomposition.
\<close>

theorem clean_text_idempotent:
  assumes "\<And>s. \<forall>c\<in>set s. c < 128 \<Longrightarrow> nfd s = s"
  shows "clean_text nfd (clean_text nfd x) = clean_text nfd x"
proof -
  have c: "normal_form (clean_text nfd x)" by (rule clean_text_normal_form)
  then have "\<forall>c\<in>set (clean_text nfd x). c < 128" by (auto simp: normal_form_def)
  then have "nfd (clean_text nfd x) = clean_text nfd x" by (rule assms)
  then show ?thesis using c by (rule clean_text_fixed)
qed

theorem clean_text_idempotent_witness:
  "clean_text nfd_sample sample_raw = u ''cafe rose_1 x'' \<and>
   clean_text nfd_sample (clean_text nfd_sample sample_raw) = clean_text nfd_sample sample_raw"
  using clean_text_idempotent[of nfd_sample sample_raw] nfd_sample_ascii clean_text_sample
  by blast

section \<open>The rewriter and the matchers\<close>

lemma fold_synonym_step:
  "fold (synonym_step sl) ws (rw, ap) =
     (rw @ map (\<lambda>w. case sl (lower w) of Some r \<Rightarrow> r | None \<Rightarrow> w) ws,
      ap @ List.map_filter (\<lambda>w. map_option (Pair w) (sl (lower w))) ws)"
proof (induction ws arbitrary: rw ap)
  case Nil
  then show ?case by (simp add: List.map_filter_simps)
next
  case (Cons w ws)
  show ?case
  proof (cases "sl (lower w)")
    case None
    then have "synonym_step sl w (rw, ap) = (rw @ [w], ap)" by (simp add: synonym_step_def)
    then show ?thesis using None by (simp add: Cons.IH List.map_filter_simps)
  next
    case (Some r)
    then have "synonym_step sl w (rw, ap) = (rw @ [r], ap @ [(w, r)])"
      by (simp add: synonym_step_def)
    then show ?thesis using Some by (simp add: Cons.IH List.map_filter_simps)
  qed
qed

lemma synonyms_lower_fold:
  "fold (\<lambda>(k, v) m. m(lower k \<mapsto> v)) syn m x =
     (case map snd (filter (\<lambda>(k, v). lower k = x) syn) of [] \<Rightarrow> m x | v # vs \<Rightarrow> Some (last (v # vs)))"
proof (induction syn arbitrary: m)
  case Nil
  then show ?case by simp
next
  case (Cons a syn)
  obtain k v where a: "a = (k, v)" by (cases a)
  have s: "fold (\<lambda>(k, v) m. m(lower k \<mapsto> v)) (a # syn) m x =
      fold (\<lambda>(k, v) m. m(lower k \<mapsto> v)) syn (m(lower k \<mapsto> v)) x"
    by (simp add: a)
  show ?case
  proof (cases "lower k = x")
    case True
    then have f: "map snd (filter (\<lambda>(k, v). lower k = x) (a # syn)) =
        v # map snd (filter (\<lambda>(k, v). lower k = x) syn)" by (simp add: a)
    have m: "(m(lower k \<mapsto> v)) x = Some v" using True by simp
    show ?thesis unfolding s f Cons.IH m
      by (cases "map snd (filter (\<lambda>(k, v). lower k = x) syn)") simp_all
  next
    case False
    then have f: "map snd (filter (\<lambda>(k, v). lower k = x) (a # syn)) =
        map snd (filter (\<lambda>(k, v). lower k = x) syn)" by (simp add: a)
    have m: "(m(lower k \<mapsto> v)) x = m x" using False by simp
    show ?thesis unfolding s f Cons.IH m by (rule refl)
  qed
qed

lemma synonyms_lower_last:
  "synonyms_lower syn x =
     (case map snd (filter (\<lambda>(k, v). lower k = x) syn) of [] \<Rightarrow> None | v # vs \<Rightarrow> Some (last (v # vs)))"
  unfolding synonyms_lower_def synonyms_lower_fold by simp

lemma map_filter_concat:
  "List.map_filter f xs = concat (map (\<lambda>x. case f x of None \<Rightarrow> [] | Some y \<Rightarrow> [y]) xs)"
  by (induction xs) (simp_all add: List.map_filter_simps split: option.splits)

text \<open>
  Claim C9. Synonym substitution is one pass over the words of the original text. Every
  word is looked up once, without regard to case: the hits of a word are the items of the
  synonym map whose key equals the word up to case; a word with no hit is kept, a word
  with hits is replaced by the value of the last of them (in the lowered map a later
  item overrides an earlier one). A replacement is put into the output and is not looked
  up again; the audit lists the pairs of word and replacement in the order of the words.
  With the synonyms a to b and b to c, the text a becomes b. The text and the keys are
  ASCII, where \<open>lower\<close> is \<open>str.lower\<close>.
\<close>

theorem apply_synonyms_single_pass:
  assumes "isascii txt" and "\<forall>(k, v)\<in>set syn. isascii k"
  shows "apply_synonyms txt syn =
     (join (u '' '')
        (map (\<lambda>w. case map snd (filter (\<lambda>(k, v). lower k = lower w) syn) of
                     [] \<Rightarrow> w | v # vs \<Rightarrow> last (v # vs))
             (split txt)),
      concat
        (map (\<lambda>w. case map snd (filter (\<lambda>(k, v). lower k = lower w) syn) of
                     [] \<Rightarrow> [] | v # vs \<Rightarrow> [(w, last (v # vs))])
             (split txt)))
   \<and> apply_synonyms (u ''a'') [(u ''a'', u ''b''), (u ''b'', u ''c'')] = (u ''b'', [(u ''a'', u ''b'')])"
proof
  have 1: "(case synonyms_lower syn (lower w) of Some r \<Rightarrow> r | None \<Rightarrow> w) =
      (case map snd (filter (\<lambda>(k, v). lower k = lower w) syn) of [] \<Rightarrow> w | v # vs \<Rightarrow> last (v # vs))" for w
    unfolding synonyms_lower_last by (simp split: list.splits)
  have 2: "(case map_option (Pair w) (synonyms_lower syn (lower w)) of None \<Rightarrow> [] | Some y \<Rightarrow> [y]) =
      (case map snd (filter (\<lambda>(k, v). lower k = lower w) syn) of [] \<Rightarrow> [] | v # vs \<Rightarrow> [(w, last (v # vs))])" for w
    unfolding synonyms_lower_last by (simp split: list.splits)
  show "apply_synonyms txt syn =
     (join (u '' '')
        (map (\<lambda>w. case map snd (filter (\<lambda>(k, v). lower k = lower w) syn) of
                     [] \<Rightarrow> w | v # vs \<Rightarrow> last (v # vs))
             (split txt)),
      concat
        (map (\<lambda>w. case map snd (filter (\<lambda>(k, v). lower k = lower w) syn) of
                     [] \<Rightarrow> [] | v # vs \<Rightarrow> [(w, last (v # vs))])
             (split txt)))"
    unfolding apply_synonyms_def Let_def fold_synonym_step map_filter_concat 1 2 by simp
  show "apply_synonyms (u ''a'') [(u ''a'', u ''b''), (u ''b'', u ''c'')] = (u ''b'', [(u ''a'', u ''b'')])"
    by (simp add: apply_synonyms_def synonyms_lower_def synonym_step_def text_defs Let_def)
qed

theorem apply_synonyms_single_pass_witness:
  "isascii (u ''Rosas  rojas x'') \<and>
   apply_synonyms (u ''Rosas  rojas x'')
       [(u ''ROSAS'', u ''tulip''), (u ''X'', u ''rosas''), (u ''rosas'', u ''roses'')]
     = (u ''roses rojas rosas'', [(u ''Rosas'', u ''roses''), (u ''x'', u ''rosas'')])"
proof -
  have a: "isascii (u ''Rosas  rojas x'')" by (simp add: isascii_def u_def)
  have k: "\<forall>(k, v)\<in>set [(u ''ROSAS'', u ''tulip''), (u ''X'', u ''rosas''), (u ''rosas'', u ''roses'')]. isascii k"
    by (simp add: isascii_def u_def)
  have "apply_synonyms (u ''Rosas  rojas x'')
       [(u ''ROSAS'', u ''tulip''), (u ''X'', u ''rosas''), (u ''rosas'', u ''roses'')]
     = (u ''roses rojas rosas'', [(u ''Rosas'', u ''roses''), (u ''x'', u ''rosas'')])"
    using apply_synonyms_single_pass[OF a k] by (simp add: text_defs)
  with a show ?thesis by (intro conjI)
qed

lemma extractOne_single: "extractOne fuzz sc q [k] = Some (k, fuzz sc q k)"
  by (simp add: extractOne_def)

lemma extractOne_Some: "choices \<noteq> [] \<Longrightarrow> \<exists>m s. extractOne fuzz sc q choices = Some (m, s)"
  by (cases choices) (auto simp: extractOne_def intro: prod.exhaust)

lemma fold_best_mem:
  "fst (fold (\<lambda>x best. if snd best < f x then (x, f x) else best) cs b) \<in> insert (fst b) (set cs)"
proof (induction cs arbitrary: b)
  case Nil
  then show ?case by simp
next
  case (Cons c cs)
  show ?case
  proof (cases "snd b < f c")
    case True
    then show ?thesis using Cons.IH[of "(c, f c)"] by auto
  next
    case False
    then show ?thesis using Cons.IH[of b] by auto
  qed
qed

lemma extractOne_mem: "extractOne fuzz sc q choices = Some (m, s) \<Longrightarrow> m \<in> set choices"
proof (cases choices)
  case Nil
  assume "extractOne fuzz sc q choices = Some (m, s)"
  then show ?thesis using Nil by (simp add: extractOne_def)
next
  case (Cons c cs)
  assume a: "extractOne fuzz sc q choices = Some (m, s)"
  have "fst (fold (\<lambda>x best. if snd best < fuzz sc q x then (x, fuzz sc q x) else best) cs (c, fuzz sc q c))
         \<in> insert c (set cs)"
    using fold_best_mem[of "fuzz sc q" cs "(c, fuzz sc q c)"] by simp
  then show ?thesis using a Cons by (auto simp: extractOne_def)
qed

lemma cascade_picks:
  assumes A: "extractOne fuzz token_sort_ratio q choices = Some (ma, sa)"
      and B: "extractOne fuzz partial_ratio q choices = Some (mb, sb)"
      and C: "extractOne fuzz token_set_ratio q choices = Some (mc, sc)"
  shows "cascade fuzz q choices =
     (let r1 = (if sa < 70 \<and> sa < sb then (mb, sb) else (ma, sa));
          r2 = (if snd r1 < 80 \<and> snd r1 < sc then (mc, sc) else r1)
      in (Inr r2, [token_sort_ratio] @ (if sa < 70 then [partial_ratio] else []) @
                  (if snd r1 < 80 then [token_set_ratio] else [])))"
  by (simp add: cascade_def primary_def fallback_def A B C Let_def)

lemma column_ok: "i < Suc (length (cells r)) \<Longrightarrow> column r i = Inr (df_columns r ! i)"
  by (simp add: column_def df_columns_def)

lemma catalog_entry_ok:
  assumes "\<forall>r\<in>set df2. 3 \<le> length (cells r)"
  shows "\<exists>a b c d e. catalog_entry df2 m = Inr [a, b, c, d, e]"
proof (cases "find (\<lambda>r. search_key r = m) df2")
  case None
  then show ?thesis by (simp add: catalog_entry_def)
next
  case (Some r)
  then have "r \<in> set df2" by (auto simp: find_Some_iff)
  then have l: "3 \<le> length (cells r)" using assms by blast
  then have "column r 0 = Inr (df_columns r ! 0)" "column r 1 = Inr (df_columns r ! 1)"
    "column r 2 = Inr (df_columns r ! 2)" "column r 3 = Inr (df_columns r ! 3)"
    by (auto simp: column_def df_columns_def)
  moreover have "5 < length (df_columns r) \<Longrightarrow> column r 5 = Inr (df_columns r ! 5)"
    by (simp add: column_def)
  ultimately show ?thesis using Some
    by (cases "5 < length (df_columns r)") (simp_all add: catalog_entry_def Let_def)
qed

lemma intelligent_fuzzy_match_cascade:
  assumes "\<forall>r\<in>set df2. 3 \<le> length (cells r)"
      and "cascade fuzz q choices = (Inr (m, s), used)"
  shows "snd (intelligent_fuzzy_match fuzz q choices df2) = used"
    and "best_match (fst (intelligent_fuzzy_match fuzz q choices df2)) = m"
    and "similarity (fst (intelligent_fuzzy_match fuzz q choices df2)) = s"
proof -
  obtain a b c d e where "catalog_entry df2 m = Inr [a, b, c, d, e]"
    using catalog_entry_ok[OF assms(1)] by blast
  then show "snd (intelligent_fuzzy_match fuzz q choices df2) = used"
    and "best_match (fst (intelligent_fuzzy_match fuzz q choices df2)) = m"
    and "similarity (fst (intelligent_fuzzy_match fuzz q choices df2)) = s"
    by (simp_all add: intelligent_fuzzy_match_def assms(2))
qed

lemma perform_fuzzy_matching_cascade:
  assumes "strip q \<noteq> []"
      and "keys = filter (\<lambda>k. k \<noteq> []) (map item_search_key catalog_data)"
      and "cascade fuzz q keys = (Inr (m, s), used)" and "m \<in> set keys"
  shows "snd (perform_fuzzy_matching fuzz q catalog_data) = used"
    and "best_match (fst (perform_fuzzy_matching fuzz q catalog_data)) = m"
    and "similarity (fst (perform_fuzzy_matching fuzz q catalog_data)) = s"
proof -
  have "keys \<noteq> []" using assms(4) by auto
  moreover have "catalog_data \<noteq> []" using assms(2,4) by auto
  ultimately have ne: "keys \<noteq> []" "catalog_data \<noteq> []" by simp_all
  have "m \<in> item_search_key ` set catalog_data" using assms(2,4) by auto
  then obtain it where "find (\<lambda>item. item_search_key item = m) catalog_data = Some it"
    by (cases "find (\<lambda>item. item_search_key item = m) catalog_data") (auto simp: find_None_iff)
  then show "snd (perform_fuzzy_matching fuzz q catalog_data) = used"
    and "best_match (fst (perform_fuzzy_matching fuzz q catalog_data)) = m"
    and "similarity (fst (perform_fuzzy_matching fuzz q catalog_data)) = s"
    using ne assms(1,3) by (simp_all add: perform_fuzzy_matching_def assms(2)[symmetric] Let_def)
qed

lemma perform_fuzzy_matching_blank:
  "strip q = [] \<Longrightarrow> perform_fuzzy_matching fuzz q catalog_data = (empty_match_result, [])"
  by (simp add: perform_fuzzy_matching_def)

text \<open>
  Claim C3. The escalation cascade of both matchers, on an input that is not blank and
  a catalog that has a key. Let \<open>(ma, sa)\<close>, \<open>(mb, sb)\<close> and \<open>(mc, sc)\<close> be the picks of
  the three scorers. Token-sort is always run; partial is run exactly when \<open>sa < 70\<close>
  and its pick replaces the match exactly when its score is strictly greater; token-set
  is run exactly when the running score is below 80 and is adopted exactly when strictly
  greater; with \<open>sa\<close> at least 80 the result is the pick of token-sort and no other
  scorer is run. The batch matcher needs the four attribute columns of its frame.
\<close>

theorem escalation_cascade:
  assumes wf: "\<forall>r\<in>set df2. 3 \<le> length (cells r)"
      and A: "extractOne fuzz token_sort_ratio q choices = Some (ma, sa)"
      and B: "extractOne fuzz partial_ratio q choices = Some (mb, sb)"
      and C: "extractOne fuzz token_set_ratio q choices = Some (mc, sc)"
      and q: "strip q \<noteq> []"
      and K: "keys = filter (\<lambda>k. k \<noteq> []) (map item_search_key catalog_data)"
      and A': "extractOne fuzz token_sort_ratio q keys = Some (ka, ta)"
      and B': "extractOne fuzz partial_ratio q keys = Some (kb, tb)"
      and C': "extractOne fuzz token_set_ratio q keys = Some (kc, tc)"
  shows
    "(let r1 = (if sa < 70 \<and> sa < sb then (mb, sb) else (ma, sa));
          r2 = (if snd r1 < 80 \<and> snd r1 < sc then (mc, sc) else r1);
          res = fst (intelligent_fuzzy_match fuzz q choices df2);
          used = snd (intelligent_fuzzy_match fuzz q choices df2)
      in used = token_sort_ratio # (if sa < 70 then [partial_ratio] else []) @
                  (if snd r1 < 80 then [token_set_ratio] else []) \<and>
         (best_match res, similarity res) = r2 \<and>
         (80 \<le> sa \<longrightarrow> best_match res = ma \<and> similarity res = sa \<and> used = [token_sort_ratio])) \<and>
     (let r1 = (if ta < 70 \<and> ta < tb then (kb, tb) else (ka, ta));
          r2 = (if snd r1 < 80 \<and> snd r1 < tc then (kc, tc) else r1);
          res = fst (perform_fuzzy_matching fuzz q catalog_data);
          used = snd (perform_fuzzy_matching fuzz q catalog_data)
      in used = token_sort_ratio # (if ta < 70 then [partial_ratio] else []) @
                  (if snd r1 < 80 then [token_set_ratio] else []) \<and>
         (best_match res, similarity res) = r2 \<and>
         (80 \<le> ta \<longrightarrow> best_match res = ka \<and> similarity res = ta \<and> used = [token_sort_ratio]))"
proof -
  define r1 where "r1 = (if sa < 70 \<and> sa < sb then (mb, sb) else (ma, sa))"
  define r2 where "r2 = (if snd r1 < 80 \<and> snd r1 < sc then (mc, sc) else r1)"
  define used where "used = token_sort_ratio # (if sa < 70 then [partial_ratio] else []) @
                  (if snd r1 < 80 then [token_set_ratio] else [])"
  have c: "cascade fuzz q choices = (Inr (fst r2, snd r2), used)"
    using cascade_picks[OF A B C] by (simp add: r1_def r2_def used_def Let_def)
  note batch = intelligent_fuzzy_match_cascade[OF wf c]
  have hi: "80 \<le> sa \<Longrightarrow> r2 = (ma, sa) \<and> used = [token_sort_ratio]"
    by (simp add: r1_def r2_def used_def)
  have 1: "(let r1 = (if sa < 70 \<and> sa < sb then (mb, sb) else (ma, sa));
          r2 = (if snd r1 < 80 \<and> snd r1 < sc then (mc, sc) else r1);
          res = fst (intelligent_fuzzy_match fuzz q choices df2);
          used = snd (intelligent_fuzzy_match fuzz q choices df2)
      in used = token_sort_ratio # (if sa < 70 then [partial_ratio] else []) @
                  (if snd r1 < 80 then [token_set_ratio] else []) \<and>
         (best_match res, similarity res) = r2 \<and>
         (80 \<le> sa \<longrightarrow> best_match res = ma \<and> similarity res = sa \<and> used = [token_sort_ratio]))"
    unfolding Let_def r1_def[symmetric] r2_def[symmetric] used_def[symmetric] batch
    using hi by auto
  define p1 where "p1 = (if ta < 70 \<and> ta < tb then (kb, tb) else (ka, ta))"
  define p2 where "p2 = (if snd p1 < 80 \<and> snd p1 < tc then (kc, tc) else p1)"
  define used' where "used' = token_sort_ratio # (if ta < 70 then [partial_ratio] else []) @
                  (if snd p1 < 80 then [token_set_ratio] else [])"
  have c': "cascade fuzz q keys = (Inr (fst p2, snd p2), used')"
    using cascade_picks[OF A' B' C'] by (simp add: p1_def p2_def used'_def Let_def)
  have "fst p2 \<in> {ka, kb, kc}" by (auto simp: p1_def p2_def)
  then have mem: "fst p2 \<in> set keys"
    using extractOne_mem[OF A'] extractOne_mem[OF B'] extractOne_mem[OF C'] by auto
  note rowm = perform_fuzzy_matching_cascade[OF q K c' mem]
  have hi': "80 \<le> ta \<Longrightarrow> p2 = (ka, ta) \<and> used' = [token_sort_ratio]"
    by (simp add: p1_def p2_def used'_def)
  have 2: "(let r1 = (if ta < 70 \<and> ta < tb then (kb, tb) else (ka, ta));
          r2 = (if snd r1 < 80 \<and> snd r1 < tc then (kc, tc) else r1);
          res = fst (perform_fuzzy_matching fuzz q catalog_data);
          used = snd (perform_fuzzy_matching fuzz q catalog_data)
      in used = token_sort_ratio # (if ta < 70 then [partial_ratio] else []) @
                  (if snd r1 < 80 then [token_set_ratio] else []) \<and>
         (best_match res, similarity res) = r2 \<and>
         (80 \<le> ta \<longrightarrow> best_match res = ka \<and> similarity res = ta \<and> used = [token_sort_ratio]))"
    unfolding Let_def p1_def[symmetric] p2_def[symmetric] used'_def[symmetric] rowm
    using hi' by auto
  show ?thesis using 1 2 by (rule conjI)
qed

text \<open>
  Claim C1. The row matcher returns the empty result on a blank input
  (\<open>perform_fuzzy_matching_blank\<close>). The batch matcher has no such guard: on the empty
  input, and on an input of two spaces, it returns the first catalog key of maximal
  score as the best match, with the attributes of that catalog row, whatever the
  scorers answer.
\<close>

theorem intelligent_fuzzy_match_empty_input:
  "best_match (fst (intelligent_fuzzy_match fuzz [] (map search_key sample_frame) sample_frame))
     = u ''roses freedom red 40cm'' \<and>
   categoria (fst (intelligent_fuzzy_match fuzz [] (map search_key sample_frame) sample_frame))
     = u ''Roses'' \<and>
   best_match (fst (intelligent_fuzzy_match fuzz (u ''  '') (map search_key sample_frame) sample_frame))
     = u ''roses freedom red 40cm''"
proof -
  have wf: "\<forall>r\<in>set sample_frame. 3 \<le> length (cells r)" by (simp add: sample_frame_def)
  have k: "map search_key sample_frame = [u ''roses freedom red 40cm'']"
    by (simp add: sample_frame_def)
  have pick: "\<And>sc q. extractOne fuzz sc q (map search_key sample_frame)
       = Some (u ''roses freedom red 40cm'', fuzz sc q (u ''roses freedom red 40cm''))"
    unfolding k by (rule extractOne_single)
  have "\<And>q. \<exists>s used. cascade fuzz q (map search_key sample_frame)
       = (Inr (u ''roses freedom red 40cm'', s), used)"
    using cascade_picks[OF pick pick pick] by (simp add: Let_def)
  then obtain s1 used1 s2 used2 where
    c1: "cascade fuzz [] (map search_key sample_frame) = (Inr (u ''roses freedom red 40cm'', s1), used1)"
    and c2: "cascade fuzz (u ''  '') (map search_key sample_frame) = (Inr (u ''roses freedom red 40cm'', s2), used2)"
    by metis
  have e: "catalog_entry sample_frame (u ''roses freedom red 40cm'')
     = Inr [[], u ''Roses'', u ''Freedom'', u ''Red'', u ''40cm'']"
    by (simp add: catalog_entry_def sample_frame_def column_def df_columns_def Let_def)
  have "categoria (fst (intelligent_fuzzy_match fuzz [] (map search_key sample_frame) sample_frame))
     = u ''Roses''"
    by (simp add: intelligent_fuzzy_match_def c1 e)
  then show ?thesis
    using intelligent_fuzzy_match_cascade(2)[OF wf c1] intelligent_fuzzy_match_cascade(2)[OF wf c2]
    by simp
qed

lemma sample_keys:
  "map search_key sample_frame2 = [u ''roses freedom red 40cm'', u ''tulip dutch red 50cm'']"
  "filter (\<lambda>k. k \<noteq> []) (map item_search_key sample_catalog)
     = [u ''roses freedom red 40cm'', u ''tulip dutch red 50cm'']"
  by (simp_all add: sample_frame2_def sample_catalog_def u_def)

lemma sample_picks:
  "extractOne sample_fuzz token_sort_ratio (u ''roses red'')
     [u ''roses freedom red 40cm'', u ''tulip dutch red 50cm''] = Some (u ''roses freedom red 40cm'', 60)"
  "extractOne sample_fuzz partial_ratio (u ''roses red'')
     [u ''roses freedom red 40cm'', u ''tulip dutch red 50cm''] = Some (u ''roses freedom red 40cm'', 75)"
  "extractOne sample_fuzz token_set_ratio (u ''roses red'')
     [u ''roses freedom red 40cm'', u ''tulip dutch red 50cm''] = Some (u ''roses freedom red 40cm'', 78)"
  by (simp_all add: extractOne_def sample_fuzz_def u_def)

theorem escalation_cascade_witness:
  "snd (intelligent_fuzzy_match sample_fuzz (u ''roses red'') (map search_key sample_frame2) sample_frame2)
     = [token_sort_ratio, partial_ratio, token_set_ratio] \<and>
   best_match (fst (intelligent_fuzzy_match sample_fuzz (u ''roses red'') (map search_key sample_frame2) sample_frame2))
     = u ''roses freedom red 40cm'' \<and>
   similarity (fst (intelligent_fuzzy_match sample_fuzz (u ''roses red'') (map search_key sample_frame2) sample_frame2))
     = 78 \<and>
   snd (perform_fuzzy_matching sample_fuzz (u ''roses red'') sample_catalog)
     = [token_sort_ratio, partial_ratio, token_set_ratio] \<and>
   similarity (fst (perform_fuzzy_matching sample_fuzz (u ''roses red'') sample_catalog)) = 78"
proof -
  have wf: "\<forall>r\<in>set sample_frame2. 3 \<le> length (cells r)" by (simp add: sample_frame2_def)
  have q: "strip (u ''roses red'') \<noteq> []" by (simp add: text_defs)
  show ?thesis
    using escalation_cascade[OF wf sample_picks[folded sample_keys(1)] q sample_keys(2)[symmetric] sample_picks]
    by (simp add: Let_def)
qed

lemma matching_step_loop:
  assumes "\<forall>k r. cache k = Some r \<longrightarrow> r = fst (intelligent_fuzzy_match fuzz k choices df2)"
      and "dom cache = set calls" and "distinct calls"
  shows "\<exists>cache' calls'.
           fold (matching_step fuzz choices df2) xs (cache, calls, out) =
             (cache', calls',
              out @ map (\<lambda>c. if c = NN then duplicate_result
                              else applied_result (fst (intelligent_fuzzy_match fuzz c choices df2))) xs) \<and>
           distinct calls' \<and> set calls' = set calls \<union> (set xs - {NN})"
  using assms
proof (induction xs arbitrary: cache calls out)
  case Nil
  then show ?case by simp
next
  case (Cons x xs)
  let ?g = "\<lambda>c. if c = NN then duplicate_result
                 else applied_result (fst (intelligent_fuzzy_match fuzz c choices df2))"
  show ?case
  proof (cases "x = NN")
    case True
    have s: "matching_step fuzz choices df2 x (cache, calls, out) = (cache, calls, out @ [duplicate_result])"
      using True by (simp add: matching_step_def)
    obtain c' k' where
      f: "fold (matching_step fuzz choices df2) xs (cache, calls, out @ [duplicate_result]) =
            (c', k', (out @ [duplicate_result]) @ map ?g xs)"
      and d: "distinct k'" and e: "set k' = set calls \<union> (set xs - {NN})"
      using Cons.IH[OF Cons.prems, of "out @ [duplicate_result]"] by blast
    have "fold (matching_step fuzz choices df2) (x # xs) (cache, calls, out) = (c', k', out @ map ?g (x # xs))"
      by (simp only: fold_simps o_apply s f) (simp add: True)
    moreover have "set k' = set calls \<union> (set (x # xs) - {NN})" using e True by auto
    ultimately show ?thesis using d by blast
  next
    case False
    show ?thesis
    proof (cases "cache x")
      case None
      define r where "r = fst (intelligent_fuzzy_match fuzz x choices df2)"
      have s: "matching_step fuzz choices df2 x (cache, calls, out)
                 = (cache(x \<mapsto> r), calls @ [x], out @ [applied_result r])"
        using False None by (simp add: matching_step_def r_def Let_def)
      have nx: "x \<notin> set calls" using None Cons.prems(2) by auto
      have 1: "\<forall>k r'. (cache(x \<mapsto> r)) k = Some r' \<longrightarrow> r' = fst (intelligent_fuzzy_match fuzz k choices df2)"
      proof (intro allI impI)
        fix k r' assume a: "(cache(x \<mapsto> r)) k = Some r'"
        show "r' = fst (intelligent_fuzzy_match fuzz k choices df2)"
        proof (cases "k = x")
          case True
          then show ?thesis using a by (simp add: r_def)
        next
          case False
          then show ?thesis using a Cons.prems(1)[rule_format, of k r'] by simp
        qed
      qed
      have 2: "dom (cache(x \<mapsto> r)) = set (calls @ [x])" using Cons.prems(2) by simp
      have 3: "distinct (calls @ [x])" using Cons.prems(3) nx by simp
      obtain c' k' where
        f: "fold (matching_step fuzz choices df2) xs (cache(x \<mapsto> r), calls @ [x], out @ [applied_result r]) =
              (c', k', (out @ [applied_result r]) @ map ?g xs)"
        and d: "distinct k'" and e: "set k' = set (calls @ [x]) \<union> (set xs - {NN})"
        using Cons.IH[OF 1 2 3, of "out @ [applied_result r]"] by blast
      have "fold (matching_step fuzz choices df2) (x # xs) (cache, calls, out) = (c', k', out @ map ?g (x # xs))"
        by (simp only: fold_simps o_apply s f) (simp add: r_def False)
      moreover have "set k' = set calls \<union> (set (x # xs) - {NN})" using e False by auto
      ultimately show ?thesis using d by blast
    next
      case (Some r)
      then have r: "r = fst (intelligent_fuzzy_match fuzz x choices df2)"
        using Cons.prems(1)[rule_format, of x r] by simp
      have s: "matching_step fuzz choices df2 x (cache, calls, out)
                 = (cache, calls, out @ [applied_result r])"
        using False Some by (simp add: matching_step_def)
      have xin: "x \<in> set calls" using Some Cons.prems(2) by auto
      obtain c' k' where
        f: "fold (matching_step fuzz choices df2) xs (cache, calls, out @ [applied_result r]) =
              (c', k', (out @ [applied_result r]) @ map ?g xs)"
        and d: "distinct k'" and e: "set k' = set calls \<union> (set xs - {NN})"
        using Cons.IH[OF Cons.prems, of "out @ [applied_result r]"] by blast
      have "fold (matching_step fuzz choices df2) (x # xs) (cache, calls, out) = (c', k', out @ map ?g (x # xs))"
        by (simp only: fold_simps o_apply s f) (simp add: r False)
      moreover have "set k' = set calls \<union> (set (x # xs) - {NN})" using e False xin by auto
      ultimately show ?thesis using d by blast
    qed
  qed
qed

lemma perform_enhanced_matching_facts:
  "fst (perform_enhanced_matching fuzz xs df2) = naive_matching fuzz xs df2 \<and>
   distinct (snd (perform_enhanced_matching fuzz xs df2)) \<and>
   set (snd (perform_enhanced_matching fuzz xs df2)) = set xs - {NN}"
proof -
  let ?g = "\<lambda>c. if c = NN then duplicate_result
                 else applied_result (fst (intelligent_fuzzy_match fuzz c (map search_key df2) df2))"
  have a1: "\<forall>k r. (Map.empty :: ustring \<rightharpoonup> match_result) k = Some r \<longrightarrow>
              r = fst (intelligent_fuzzy_match fuzz k (map search_key df2) df2)"
    by simp
  have a2: "dom (Map.empty :: ustring \<rightharpoonup> match_result) = set []" by simp
  have a3: "distinct ([] :: ustring list)" by simp
  note L = matching_step_loop[OF a1 a2 a3, of xs "[]"]
  from L obtain cache' calls' where
    f0: "fold (matching_step fuzz (map search_key df2) df2) xs (Map.empty, [], []) =
          (cache', calls', [] @ map ?g xs)"
    and d: "distinct calls'" and s0: "set calls' = set [] \<union> (set xs - {NN})"
    by (elim exE conjE)
  have f: "fold (matching_step fuzz (map search_key df2) df2) xs (Map.empty, [], []) =
          (cache', calls', map ?g xs)"
    using f0 by simp
  have s: "set calls' = set xs - {NN}" using s0 by simp
  have 1: "fst (perform_enhanced_matching fuzz xs df2) = naive_matching fuzz xs df2"
    by (simp add: perform_enhanced_matching_def naive_matching_def Let_def f)
  have 2: "snd (perform_enhanced_matching fuzz xs df2) = calls'"
    by (simp add: perform_enhanced_matching_def Let_def f)
  show ?thesis unfolding 1 2 by (intro conjI refl d s)
qed

text \<open>
  Claim C5. The matcher with the cache returns what the matcher without it returns;
  rows of the same cleaned text get the same result; and \<open>intelligent_fuzzy_match\<close> is
  called once for every distinct cleaned text other than the mark of a duplicate.
\<close>

theorem memoized_matching_equals_naive:
  "fst (perform_enhanced_matching fuzz xs df2) = naive_matching fuzz xs df2 \<and>
   distinct (snd (perform_enhanced_matching fuzz xs df2)) \<and>
   set (snd (perform_enhanced_matching fuzz xs df2)) = set xs - {NN} \<and>
   (\<forall>i<length xs. \<forall>j<length xs. xs ! i = xs ! j \<longrightarrow>
      fst (perform_enhanced_matching fuzz xs df2) ! i = fst (perform_enhanced_matching fuzz xs df2) ! j)"
proof -
  note F = perform_enhanced_matching_facts[of fuzz xs df2]
  have 1: "fst (perform_enhanced_matching fuzz xs df2) = naive_matching fuzz xs df2"
    using F by (elim conjE)
  have 3: "\<forall>i<length xs. \<forall>j<length xs. xs ! i = xs ! j \<longrightarrow>
      naive_matching fuzz xs df2 ! i = naive_matching fuzz xs df2 ! j"
    by (simp add: naive_matching_def)
  have 4: "\<forall>i<length xs. \<forall>j<length xs. xs ! i = xs ! j \<longrightarrow>
      fst (perform_enhanced_matching fuzz xs df2) ! i = fst (perform_enhanced_matching fuzz xs df2) ! j"
    unfolding 1 by (rule 3)
  show ?thesis using F 4 by (intro conjI) (elim conjE, assumption)+
qed

theorem memoized_matching_equals_naive_witness:
  "snd (perform_enhanced_matching sample_fuzz sample_inputs sample_frame2) = [u ''roses red'', u ''tulip''] \<and>
   fst (perform_enhanced_matching sample_fuzz sample_inputs sample_frame2) ! 0
     = fst (perform_enhanced_matching sample_fuzz sample_inputs sample_frame2) ! 3 \<and>
   fst (perform_enhanced_matching sample_fuzz sample_inputs sample_frame2)
     = naive_matching sample_fuzz sample_inputs sample_frame2"
proof -
  have l: "0 < length sample_inputs" "3 < length sample_inputs" "sample_inputs ! 0 = sample_inputs ! 3"
    by (simp_all add: sample_inputs_def)
  have c: "snd (perform_enhanced_matching sample_fuzz sample_inputs sample_frame2) = [u ''roses red'', u ''tulip'']"
    by (simp add: perform_enhanced_matching_def sample_inputs_def matching_step_def NN_def u_def Let_def)
  note T = memoized_matching_equals_naive[of sample_fuzz sample_inputs sample_frame2]
  from T have e: "fst (perform_enhanced_matching sample_fuzz sample_inputs sample_frame2)
     = naive_matching sample_fuzz sample_inputs sample_frame2" by (elim conjE)
  from T have "\<forall>i<length sample_inputs. \<forall>j<length sample_inputs. sample_inputs ! i = sample_inputs ! j \<longrightarrow>
      fst (perform_enhanced_matching sample_fuzz sample_inputs sample_frame2) ! i
       = fst (perform_enhanced_matching sample_fuzz sample_inputs sample_frame2) ! j" by (elim conjE)
  then have "fst (perform_enhanced_matching sample_fuzz sample_inputs sample_frame2) ! 0
     = fst (perform_enhanced_matching sample_fuzz sample_inputs sample_frame2) ! 3"
    using l by blast
  then show ?thesis using c e by (intro conjI)
qed

section \<open>The row processor\<close>

lemma timedelta_seconds_within_a_day:
  assumes "0 \<le> d" "d < 86400000000"
  shows "timedelta_seconds d < 300 \<longleftrightarrow> d < 300000000"
proof -
  have a: "0 \<le> d div 1000000" using assms(1) by simp
  have b: "d div 1000000 < 86400" using assms(2) by simp
  have "(d div 1000000) mod 86400 = d div 1000000" using a b by simp
  moreover have "d div 1000000 < 300 \<longleftrightarrow> d < 300000000" by auto
  ultimately show ?thesis by (simp add: timedelta_seconds_def)
qed

lemma get_catalog_data_fresh:
  assumes "catalog_cache p = Some cached" "cache_timestamp p = Some stamp"
      and "timedelta_seconds (now w - stamp) < cache_ttl p"
  shows "get_catalog_data nfd p w False = (cached, p, w)"
  using assms by (simp add: get_catalog_data_def)

lemma get_catalog_data_stale:
  assumes "catalog_cache p = Some cached" "cache_timestamp p = Some stamp"
      and "\<not> timedelta_seconds (now w - stamp) < cache_ttl p"
  shows "get_catalog_data nfd p w False =
     (if catalog_readable w
      then (map (format_catalog_row nfd) (product_catalog w),
            p\<lparr>catalog_cache := Some (map (format_catalog_row nfd) (product_catalog w)),
              cache_timestamp := Some (now w)\<rparr>,
            w\<lparr>catalog_queries := Suc (catalog_queries w)\<rparr>)
      else (cached, p, w\<lparr>catalog_queries := Suc (catalog_queries w)\<rparr>))"
  using assms by (simp add: get_catalog_data_def Let_def)

text \<open>
  Claim C2, as amended. For a processor that holds a cache built at \<open>stamp\<close>, with the
  time to live of 300 seconds, and a query at most one day later: when less than 300
  seconds have passed the cached catalog is returned, and neither the processor nor the
  world changes (the catalog is not read); when 300 seconds or more have passed the
  catalog is read again, and where the read succeeds its rows are returned and the
  stamp becomes the time of the query. Times are in microseconds.
\<close>

theorem catalog_cache_ttl:
  assumes c: "catalog_cache p = Some cached" and t: "cache_timestamp p = Some stamp"
      and ttl: "cache_ttl p = 300"
      and lo: "0 \<le> now w - stamp" and hi: "now w - stamp < 86400000000"
  shows "(now w - stamp < 300000000 \<longrightarrow> get_catalog_data nfd p w False = (cached, p, w)) \<and>
         (300000000 \<le> now w - stamp \<longrightarrow>
            catalog_queries (snd (snd (get_catalog_data nfd p w False))) = Suc (catalog_queries w) \<and>
            (catalog_readable w \<longrightarrow>
               fst (get_catalog_data nfd p w False) = map (format_catalog_row nfd) (product_catalog w) \<and>
               cache_timestamp (fst (snd (get_catalog_data nfd p w False))) = Some (now w)))"
proof (intro conjI impI)
  assume "now w - stamp < 300000000"
  then have "timedelta_seconds (now w - stamp) < cache_ttl p"
    using timedelta_seconds_within_a_day[OF lo hi] ttl by simp
  then show "get_catalog_data nfd p w False = (cached, p, w)"
    by (rule get_catalog_data_fresh[OF c t])
next
  assume "300000000 \<le> now w - stamp"
  then have s: "\<not> timedelta_seconds (now w - stamp) < cache_ttl p"
    using timedelta_seconds_within_a_day[OF lo hi] ttl by simp
  show "catalog_queries (snd (snd (get_catalog_data nfd p w False))) = Suc (catalog_queries w)"
    by (simp add: get_catalog_data_stale[OF c t s])
  assume r: "catalog_readable w"
  show "fst (get_catalog_data nfd p w False) = map (format_catalog_row nfd) (product_catalog w)"
    by (simp add: get_catalog_data_stale[OF c t s] r)
  show "cache_timestamp (fst (snd (get_catalog_data nfd p w False))) = Some (now w)"
    by (simp add: get_catalog_data_stale[OF c t s] r)
qed

theorem catalog_cache_ttl_witness:
  "get_catalog_data id (cached_processor 0) (sample_world\<lparr>now := 299999999\<rparr>) False
     = (sample_catalog, cached_processor 0, sample_world\<lparr>now := 299999999\<rparr>) \<and>
   catalog_queries (snd (snd (get_catalog_data id (cached_processor 0) (sample_world\<lparr>now := 300000000\<rparr>) False)))
     = Suc 0 \<and>
   cache_timestamp (fst (snd (get_catalog_data id (cached_processor 0) (sample_world\<lparr>now := 300000000\<rparr>) False)))
     = Some 300000000"
proof -
  have p: "catalog_cache (cached_processor 0) = Some sample_catalog"
    "cache_timestamp (cached_processor 0) = Some 0" "cache_ttl (cached_processor 0) = 300"
    by (simp_all add: cached_processor_def)
  have w1: "0 \<le> now (sample_world\<lparr>now := 299999999\<rparr>) - 0"
    "now (sample_world\<lparr>now := 299999999\<rparr>) - 0 < 86400000000"
    "now (sample_world\<lparr>now := 299999999\<rparr>) - 0 < 300000000" by simp_all
  have w2: "0 \<le> now (sample_world\<lparr>now := 300000000\<rparr>) - 0"
    "now (sample_world\<lparr>now := 300000000\<rparr>) - 0 < 86400000000"
    "300000000 \<le> now (sample_world\<lparr>now := 300000000\<rparr>) - 0"
    "catalog_readable (sample_world\<lparr>now := 300000000\<rparr>)"
    "catalog_queries (sample_world\<lparr>now := 300000000\<rparr>) = 0"
    "now (sample_world\<lparr>now := 300000000\<rparr>) = 300000000"
    by (simp_all add: sample_world_def)
  note A = catalog_cache_ttl[OF p w1(1,2), of id]
  note B = catalog_cache_ttl[OF p w2(1,2), of id]
  have 1: "get_catalog_data id (cached_processor 0) (sample_world\<lparr>now := 299999999\<rparr>) False
     = (sample_catalog, cached_processor 0, sample_world\<lparr>now := 299999999\<rparr>)"
    using A w1(3) by blast
  have 2: "catalog_queries (snd (snd (get_catalog_data id (cached_processor 0) (sample_world\<lparr>now := 300000000\<rparr>) False)))
     = Suc 0"
    using B w2(3,5) by simp
  have 3: "cache_timestamp (fst (snd (get_catalog_data id (cached_processor 0) (sample_world\<lparr>now := 300000000\<rparr>) False)))
     = Some 300000000"
    using B w2(3,4,6) by simp
  show ?thesis using 1 2 3 by (intro conjI)
qed

text \<open>
  Claim C2 as stated fails twice. One day and ten seconds after the build the elapsed
  time exceeds 300 seconds, yet \<open>.seconds\<close> reads 10 and the cache is returned without
  any read. Exactly 300 seconds after the build the elapsed time does not exceed 300
  seconds, yet the test \<open>< 300\<close> fails and the catalog is read again.
\<close>

theorem catalog_cache_ttl_counterexample:
  "get_catalog_data id (cached_processor 0) (sample_world\<lparr>now := 86410000000\<rparr>) False
     = (sample_catalog, cached_processor 0, sample_world\<lparr>now := 86410000000\<rparr>) \<and>
   catalog_queries (snd (snd (get_catalog_data id (cached_processor 0) (sample_world\<lparr>now := 300000000\<rparr>) False)))
     = Suc (catalog_queries (sample_world\<lparr>now := 300000000\<rparr>))"
proof -
  have "timedelta_seconds (86410000000 - 0) = 10" by (simp add: timedelta_seconds_def)
  then have 1: "get_catalog_data id (cached_processor 0) (sample_world\<lparr>now := 86410000000\<rparr>) False
     = (sample_catalog, cached_processor 0, sample_world\<lparr>now := 86410000000\<rparr>)"
    by (simp add: get_catalog_data_def cached_processor_def)
  have "timedelta_seconds (300000000 - 0) = 300" by (simp add: timedelta_seconds_def)
  then have 2: "catalog_queries (snd (snd (get_catalog_data id (cached_processor 0) (sample_world\<lparr>now := 300000000\<rparr>) False)))
     = Suc (catalog_queries (sample_world\<lparr>now := 300000000\<rparr>))"
    by (simp add: get_catalog_data_def cached_processor_def Let_def)
  show ?thesis using 1 2 by (intro conjI)
qed

lemma reprocess_blank:
  assumes "strip (py_str (get row_data ''vendor_product_description'' (PStr []))) = []"
  shows "reprocess_single_row fuzz nfd p w row_data flag =
     \<lparr>success = False, returned_row = row_data, processor_after = p,
      world_after = (if flag then snd (update_synonyms_blacklist_from_row w row_data) else w),
      matcher_inputs = []\<rparr>"
  using assms by (simp add: reprocess_single_row_def Let_def)

lemma reprocess_not_blank:
  assumes "strip (py_str (get row_data ''vendor_product_description'' (PStr []))) \<noteq> []"
  shows "success (reprocess_single_row fuzz nfd p w row_data flag)"
  using assms by (simp add: reprocess_single_row_def Let_def split: prod.splits)

lemma update_blacklist_annotation:
  assumes "rules_readable w" "rules_writable w"
      and "lower (strip (py_str (get row_data ''action'' (PStr [])))) = u ''blacklist''"
      and "strip (py_str (get row_data ''word'' (PStr []))) \<noteq> []"
      and "strip (py_str (get row_data ''word'' (PStr []))) \<notin> set (blacklist_rows (rules_db w))"
  shows "blacklist_rows (rules_db (snd (update_synonyms_blacklist_from_row w row_data)))
           = blacklist_rows (rules_db w) @ [strip (py_str (get row_data ''word'' (PStr [])))]"
proof -
  have a: "u ''blacklist'' \<noteq> []" "u ''blacklist'' \<noteq> u ''synonym''" by (simp_all add: u_def)
  show ?thesis
    using assms a
    by (simp add: update_synonyms_blacklist_from_row_def Let_def
        get_client_synonyms_blacklist_def update_client_synonyms_blacklist_def)
qed

lemma update_synonym_annotation:
  assumes "rules_readable w" "rules_writable w"
      and "lower (strip (py_str (get row_data ''action'' (PStr [])))) = u ''synonym''"
      and "58 \<in> set (strip (py_str (get row_data ''word'' (PStr []))))"
      and "strip_quotes (strip (takeWhile (\<lambda>c. c \<noteq> 58) (strip (py_str (get row_data ''word'' (PStr [])))))) \<noteq> []"
      and "strip_quotes (strip (tl (dropWhile (\<lambda>c. c \<noteq> 58) (strip (py_str (get row_data ''word'' (PStr []))))))) \<noteq> []"
  shows "synonym_rows (rules_db (snd (update_synonyms_blacklist_from_row w row_data)))
           = AList.update
               (strip_quotes (strip (takeWhile (\<lambda>c. c \<noteq> 58) (strip (py_str (get row_data ''word'' (PStr [])))))))
               (strip_quotes (strip (tl (dropWhile (\<lambda>c. c \<noteq> 58) (strip (py_str (get row_data ''word'' (PStr []))))))))
               (rule_synonyms (get_client_synonyms_blacklist w))"
proof -
  have a: "u ''synonym'' \<noteq> []" by (simp add: u_def)
  have n: "strip (py_str (get row_data ''word'' (PStr []))) \<noteq> []" using assms(4) by auto
  show ?thesis
    using assms a n
    by (simp add: update_synonyms_blacklist_from_row_def Let_def update_client_synonyms_blacklist_def)
qed

text \<open>
  Claim C10. A row whose description is blank comes back unchanged with
  \<open>success = False\<close>, and nothing is handed to the matcher. The world it leaves is the
  one that \<open>_update_synonyms_blacklist_from_row\<close> left when the update was requested:
  with a readable and writable rule store, a \<open>blacklist\<close> annotation has added its word
  to the stored blacklist, and a \<open>synonym\<close> annotation has stored its pair, before the
  failure is returned.
\<close>

theorem reprocess_blank_description:
  assumes "strip (py_str (get row_data ''vendor_product_description'' (PStr []))) = []"
  shows "success (reprocess_single_row fuzz nfd p w row_data flag) = False \<and>
         returned_row (reprocess_single_row fuzz nfd p w row_data flag) = row_data \<and>
         matcher_inputs (reprocess_single_row fuzz nfd p w row_data flag) = [] \<and>
         world_after (reprocess_single_row fuzz nfd p w row_data flag) =
           (if flag then snd (update_synonyms_blacklist_from_row w row_data) else w) \<and>
         (flag \<and> rules_readable w \<and> rules_writable w \<and>
          lower (strip (py_str (get row_data ''action'' (PStr [])))) = u ''blacklist'' \<and>
          strip (py_str (get row_data ''word'' (PStr []))) \<noteq> [] \<and>
          strip (py_str (get row_data ''word'' (PStr []))) \<notin> set (blacklist_rows (rules_db w)) \<longrightarrow>
          blacklist_rows (rules_db (world_after (reprocess_single_row fuzz nfd p w row_data flag)))
            = blacklist_rows (rules_db w) @ [strip (py_str (get row_data ''word'' (PStr [])))]) \<and>
         (flag \<and> rules_readable w \<and> rules_writable w \<and>
          lower (strip (py_str (get row_data ''action'' (PStr [])))) = u ''synonym'' \<and>
          58 \<in> set (strip (py_str (get row_data ''word'' (PStr [])))) \<and>
          strip_quotes (strip (takeWhile (\<lambda>c. c \<noteq> 58) (strip (py_str (get row_data ''word'' (PStr [])))))) \<noteq> [] \<and>
          strip_quotes (strip (tl (dropWhile (\<lambda>c. c \<noteq> 58) (strip (py_str (get row_data ''word'' (PStr []))))))) \<noteq> [] \<longrightarrow>
          synonym_rows (rules_db (world_after (reprocess_single_row fuzz nfd p w row_data flag)))
            = AList.update
               (strip_quotes (strip (takeWhile (\<lambda>c. c \<noteq> 58) (strip (py_str (get row_data ''word'' (PStr [])))))))
               (strip_quotes (strip (tl (dropWhile (\<lambda>c. c \<noteq> 58) (strip (py_str (get row_data ''word'' (PStr []))))))))
               (rule_synonyms (get_client_synonyms_blacklist w)))"
  using update_blacklist_annotation[of w row_data] update_synonym_annotation[of w row_data]
  by (simp add: reprocess_blank[OF assms])

lemma sample_row_blank_fields:
  "strip (py_str (get sample_row_blank ''vendor_product_description'' (PStr []))) = []"
  "lower (strip (py_str (get sample_row_blank ''action'' (PStr [])))) = u ''blacklist''"
  "strip (py_str (get sample_row_blank ''word'' (PStr []))) = u ''bunch''"
  by (simp_all add: sample_row_blank_def get_def text_defs)

theorem reprocess_blank_description_witness:
  "success (reprocess_single_row sample_fuzz id new_processor sample_world sample_row_blank True) = False \<and>
   returned_row (reprocess_single_row sample_fuzz id new_processor sample_world sample_row_blank True)
     = sample_row_blank \<and>
   matcher_inputs (reprocess_single_row sample_fuzz id new_processor sample_world sample_row_blank True) = [] \<and>
   blacklist_rows (rules_db (world_after
      (reprocess_single_row sample_fuzz id new_processor sample_world sample_row_blank True)))
     = [u ''stems'', u ''bunch'']"
proof -
  have w: "rules_readable sample_world" "rules_writable sample_world"
    "blacklist_rows (rules_db sample_world) = [u ''stems'']"
    by (simp_all add: sample_world_def)
  have n: "u ''bunch'' \<noteq> []" "u ''bunch'' \<notin> set [u ''stems'']" by (simp_all add: u_def)
  note T = reprocess_blank_description[OF sample_row_blank_fields(1),
        of sample_fuzz id new_processor sample_world True]
  have 1: "success (reprocess_single_row sample_fuzz id new_processor sample_world sample_row_blank True) = False"
    using T by (elim conjE)
  have 2: "returned_row (reprocess_single_row sample_fuzz id new_processor sample_world sample_row_blank True)
     = sample_row_blank"
    using T by (elim conjE)
  have 3: "matcher_inputs (reprocess_single_row sample_fuzz id new_processor sample_world sample_row_blank True) = []"
    using T by (elim conjE)
  have "True \<and> rules_readable sample_world \<and> rules_writable sample_world \<and>
          lower (strip (py_str (get sample_row_blank ''action'' (PStr [])))) = u ''blacklist'' \<and>
          strip (py_str (get sample_row_blank ''word'' (PStr []))) \<noteq> [] \<and>
          strip (py_str (get sample_row_blank ''word'' (PStr []))) \<notin> set (blacklist_rows (rules_db sample_world))"
    using w n by (simp add: sample_row_blank_fields)
  then have "blacklist_rows (rules_db (world_after
      (reprocess_single_row sample_fuzz id new_processor sample_world sample_row_blank True)))
     = blacklist_rows (rules_db sample_world) @ [strip (py_str (get sample_row_blank ''word'' (PStr [])))]"
    using T by blast
  then have 4: "blacklist_rows (rules_db (world_after
      (reprocess_single_row sample_fuzz id new_processor sample_world sample_row_blank True)))
     = [u ''stems'', u ''bunch'']"
    by (simp add: w sample_row_blank_fields)
  show ?thesis using 1 2 3 4 by (intro conjI)
qed

text \<open>
  Claim C8, as amended. Whenever \<open>reprocess_single_row\<close> returns \<open>success = False\<close>
  the row it returns is the row it was given; and it returns \<open>success = False\<close> exactly
  when the description is blank, whatever the state of the rule store and of the
  catalog: a failed read or write of the rule store is absorbed by the helper that
  performs it.
\<close>

theorem reprocess_failure_returns_row:
  "(\<not> success (reprocess_single_row fuzz nfd p w row_data flag) \<longrightarrow>
      returned_row (reprocess_single_row fuzz nfd p w row_data flag) = row_data) \<and>
   (success (reprocess_single_row fuzz nfd p w row_data flag) \<longleftrightarrow>
      strip (py_str (get row_data ''vendor_product_description'' (PStr []))) \<noteq> [])"
proof (cases "strip (py_str (get row_data ''vendor_product_description'' (PStr []))) = []")
  case True
  then show ?thesis by (simp add: reprocess_blank)
next
  case False
  then show ?thesis using reprocess_not_blank[OF False, of fuzz nfd p w flag] by simp
qed

theorem reprocess_failure_returns_row_witness:
  "success (reprocess_single_row sample_fuzz id new_processor broken_world sample_row_blank True) = False \<and>
   returned_row (reprocess_single_row sample_fuzz id new_processor broken_world sample_row_blank True)
     = sample_row_blank"
  using reprocess_failure_returns_row[of sample_fuzz id new_processor broken_world sample_row_blank True]
  by (simp add: sample_row_blank_fields)

lemma broken_world_rules:
  "get_client_synonyms_blacklist broken_world = \<lparr>rule_synonyms = [], rule_blacklist = []\<rparr>"
  "update_synonyms_blacklist_from_row broken_world sample_row = (False, broken_world)"
  by (simp_all add: get_client_synonyms_blacklist_def broken_world_def sample_world_def
      update_synonyms_blacklist_from_row_def update_client_synonyms_blacklist_def sample_row_def
      get_def text_defs Let_def)

text \<open>
  Claim C8 as stated fails. With a rule store that can be neither read nor written and a
  catalog that cannot be read, the rule update requested by the row fails
  (\<open>_update_synonyms_blacklist_from_row\<close> answers \<open>False\<close>), and yet the row comes back
  with \<open>success = True\<close> and with enrichment fields written.
\<close>

theorem reprocess_failure_counterexample:
  "update_synonyms_blacklist_from_row broken_world sample_row = (False, broken_world) \<and>
   success (reprocess_single_row sample_fuzz id new_processor broken_world sample_row True) = True \<and>
   returned_row (reprocess_single_row sample_fuzz id new_processor broken_world sample_row True) ''cleaned_input''
     = Some (PStr (u ''red roses'')) \<and>
   returned_row (reprocess_single_row sample_fuzz id new_processor broken_world sample_row True) ''best_match''
     = Some (PStr []) \<and>
   sample_row ''cleaned_input'' = None \<and> sample_row ''best_match'' = None"
proof -
  have d: "py_str (get sample_row ''vendor_product_description'' (PStr [])) = u ''Red Roses''"
    by (simp add: sample_row_def get_def)
  have s: "strip (u ''Red Roses'') \<noteq> []" by (simp add: text_defs)
  have c: "clean_text id (u ''Red Roses'') = u ''red roses''"
    by (simp add: clean_text_def text_defs)
  have a: "apply_synonyms (u ''red roses'') [] = (u ''red roses'', [])"
    by (simp add: apply_synonyms_def synonyms_lower_def synonym_step_def text_defs Let_def)
  have b: "remove_blacklist (u ''red roses'') [] = (u ''red roses'', [])"
    by (simp add: remove_blacklist_def blacklist_sorted_def text_defs Let_def)
  have g: "get_catalog_data id new_processor broken_world False
            = ([], new_processor, broken_world\<lparr>catalog_queries := Suc (catalog_queries broken_world)\<rparr>)"
    by (simp add: get_catalog_data_def new_processor_def broken_world_def sample_world_def)
  have m: "perform_fuzzy_matching sample_fuzz (u ''red roses'') [] = (empty_match_result, [])"
    by (simp add: perform_fuzzy_matching_def)
  have r: "reprocess_single_row sample_fuzz id new_processor broken_world sample_row True =
     \<lparr>success = True,
      returned_row = sample_row
                  (''cleaned_input'' \<mapsto> PStr (u ''red roses''),
                   ''applied_synonyms'' \<mapsto> PStr (format_applied []),
                   ''removed_blacklist_words'' \<mapsto> PStr (join (u '' '') []),
                   ''best_match'' \<mapsto> PStr (best_match empty_match_result),
                   ''similarity_percentage'' \<mapsto> PInt (similarity empty_match_result),
                   ''matched_words'' \<mapsto> PStr (matched_words empty_match_result),
                   ''missing_words'' \<mapsto> PStr (missing_words empty_match_result),
                   ''catalog_id'' \<mapsto> PStr (catalog_id empty_match_result),
                   ''categoria'' \<mapsto> PStr (categoria empty_match_result),
                   ''variedad'' \<mapsto> PStr (variedad empty_match_result),
                   ''color'' \<mapsto> PStr (color empty_match_result),
                   ''grado'' \<mapsto> PStr (grado empty_match_result),
                   ''updated_at'' \<mapsto> PTime (now (broken_world\<lparr>catalog_queries := Suc (catalog_queries broken_world)\<rparr>))),
      processor_after = new_processor,
      world_after = broken_world\<lparr>catalog_queries := Suc (catalog_queries broken_world)\<rparr>,
      matcher_inputs = [u ''red roses'']\<rparr>"
    unfolding reprocess_single_row_def
    by (simp only: broken_world_rules d s c a b g m Let_def if_True if_False snd_conv fst_conv
          client_rules.simps prod.case)
  have 1: "success (reprocess_single_row sample_fuzz id new_processor broken_world sample_row True) = True"
    by (simp add: r)
  have 2: "returned_row (reprocess_single_row sample_fuzz id new_processor broken_world sample_row True) ''cleaned_input''
     = Some (PStr (u ''red roses''))"
    by (simp add: r)
  have 3: "returned_row (reprocess_single_row sample_fuzz id new_processor broken_world sample_row True) ''best_match''
     = Some (PStr [])"
    by (simp add: r empty_match_result_def)
  have 4: "sample_row ''cleaned_input'' = None" "sample_row ''best_match'' = None"
    by (simp_all add: sample_row_def)
  show ?thesis using broken_world_rules(2) 1 2 3 4 by (intro conjI)
qed

section \<open>remove_blacklist\<close>

lemma prefix_ci_iff:
  "prefix_ci p s \<longleftrightarrow> length p \<le> length s \<and> lower (take (length p) s) = lower p"
  by (induction p s rule: prefix_ci.induct) (auto simp: lower_def)

lemma last_cp_snoc: "last_cp (xs @ [c]) = Some c"
  by (induction xs rule: last_cp.induct) auto

lemma last_cp_Cons: "xs \<noteq> [] \<Longrightarrow> last_cp (c # xs) = last_cp xs"
  by (cases xs) auto

lemma first_cp_append: "m \<noteq> [] \<Longrightarrow> first_cp (m @ post) = first_cp m"
  by (cases m) auto

lemma match_here_iff:
  assumes "p \<noteq> []"
  shows "match_here p prev s \<longleftrightarrow>
     (\<exists>m post. s = m @ post \<and> length m = length p \<and> lower m = lower p \<and>
        boundary prev (first_cp m) \<and> boundary (last_cp m) (first_cp post))"
proof
  assume h: "match_here p prev s"
  then have l: "length p \<le> length s" and e: "lower (take (length p) s) = lower p"
    by (auto simp: match_here_def prefix_ci_iff)
  let ?m = "take (length p) s" and ?post = "drop (length p) s"
  have ne: "?m \<noteq> []" using assms l by auto
  have "first_cp s = first_cp ?m" using first_cp_append[OF ne, of ?post] by simp
  then have "boundary prev (first_cp ?m)" "boundary (last_cp ?m) (first_cp ?post)"
    using h by (auto simp: match_here_def)
  moreover have "s = ?m @ ?post" "length ?m = length p" using l by auto
  ultimately show "\<exists>m post. s = m @ post \<and> length m = length p \<and> lower m = lower p \<and>
        boundary prev (first_cp m) \<and> boundary (last_cp m) (first_cp post)"
    using e by blast
next
  assume "\<exists>m post. s = m @ post \<and> length m = length p \<and> lower m = lower p \<and>
        boundary prev (first_cp m) \<and> boundary (last_cp m) (first_cp post)"
  then obtain m post where s: "s = m @ post" and l: "length m = length p"
    and e: "lower m = lower p" and b1: "boundary prev (first_cp m)"
    and b2: "boundary (last_cp m) (first_cp post)" by blast
  have ne: "m \<noteq> []" using assms l by auto
  have t: "take (length p) s = m" "drop (length p) s = post" using s l by auto
  have "first_cp s = first_cp m" using first_cp_append[OF ne] s by simp
  then show "match_here p prev s"
    using b1 b2 e l s by (simp add: match_here_def prefix_ci_iff t)
qed

lemma re_search_from_iff:
  assumes "p \<noteq> []"
  shows "re_search_from p prev s \<longleftrightarrow>
     (\<exists>pre m post. s = pre @ m @ post \<and> length m = length p \<and> lower m = lower p \<and>
        boundary (if pre = [] then prev else last_cp pre) (first_cp m) \<and>
        boundary (last_cp m) (first_cp post))"
proof (induction s arbitrary: prev)
  case Nil
  have "\<not> match_here p prev []" using assms by (cases p) (auto simp: match_here_def)
  moreover have "\<And>m. length m = length p \<Longrightarrow> m \<noteq> []" using assms by auto
  ultimately show ?case by auto
next
  case (Cons c cs)
  let ?R = "\<lambda>prev s pre m post. s = pre @ m @ post \<and> length m = length p \<and> lower m = lower p \<and>
        boundary (if pre = [] then prev else last_cp pre) (first_cp m) \<and>
        boundary (last_cp m) (first_cp post)"
  have step: "(\<exists>pre m post. ?R prev (c # cs) pre m post) \<longleftrightarrow>
        (\<exists>m post. ?R prev (c # cs) [] m post) \<or> (\<exists>pre m post. ?R (Some c) cs pre m post)"
  proof
    assume "\<exists>pre m post. ?R prev (c # cs) pre m post"
    then obtain pre m post where r: "?R prev (c # cs) pre m post" by blast
    show "(\<exists>m post. ?R prev (c # cs) [] m post) \<or> (\<exists>pre m post. ?R (Some c) cs pre m post)"
    proof (cases pre)
      case Nil
      then show ?thesis using r by blast
    next
      case (Cons d pre')
      then have d: "d = c" and cs: "cs = pre' @ m @ post" using r by auto
      have "(if pre = [] then prev else last_cp pre) = (if pre' = [] then Some c else last_cp pre')"
        using Cons d by (cases pre') auto
      then have "?R (Some c) cs pre' m post" using r cs by simp
      then show ?thesis by blast
    qed
  next
    assume "(\<exists>m post. ?R prev (c # cs) [] m post) \<or> (\<exists>pre m post. ?R (Some c) cs pre m post)"
    then show "\<exists>pre m post. ?R prev (c # cs) pre m post"
    proof
      assume "\<exists>m post. ?R prev (c # cs) [] m post"
      then show ?thesis by blast
    next
      assume "\<exists>pre m post. ?R (Some c) cs pre m post"
      then obtain pre m post where r: "?R (Some c) cs pre m post" by blast
      have "(if c # pre = [] then prev else last_cp (c # pre)) = (if pre = [] then Some c else last_cp pre)"
        by (cases pre) auto
      then have "?R prev (c # cs) (c # pre) m post" using r by simp
      then show ?thesis by blast
    qed
  qed
  have "re_search_from p prev (c # cs) \<longleftrightarrow> match_here p prev (c # cs) \<or> re_search_from p (Some c) cs"
    by simp
  also have "\<dots> \<longleftrightarrow> (\<exists>m post. ?R prev (c # cs) [] m post) \<or> (\<exists>pre m post. ?R (Some c) cs pre m post)"
    using match_here_iff[OF assms, of prev "c # cs"] Cons.IH[of "Some c"] by simp
  finally show ?case using step by simp
qed

lemma re_search_occurs: "p \<noteq> [] \<Longrightarrow> re_search p s \<longleftrightarrow> occurs p s"
proof -
  assume p: "p \<noteq> []"
  have "\<And>pre::ustring. (if pre = [] then None else last_cp pre) = last_cp pre"
    by simp
  then show ?thesis
    unfolding re_search_def occurs_def re_search_from_iff[OF p] by simp
qed

lemma re_sub_from_length:
  assumes "p \<noteq> []" "k \<le> length s"
  shows "length (re_sub_from p k prev s) + count_matches_from p k prev s * length p + k = length s"
  using assms(2)
proof (induction s arbitrary: k prev)
  case Nil
  then show ?case by simp
next
  case (Cons c cs)
  show ?case
  proof (cases "0 < k")
    case True
    then have "k - 1 \<le> length cs" using Cons.prems by simp
    from Cons.IH[OF this, of "Some c"] show ?thesis using True by simp
  next
    case k0: False
    show ?thesis
    proof (cases "match_here p prev (c # cs)")
      case True
      then have "length p \<le> length (c # cs)" by (simp add: match_here_def prefix_ci_iff)
      then have le: "length p - 1 \<le> length cs" by simp
      have p1: "1 \<le> length p" using assms(1) by (cases p) auto
      from Cons.IH[OF le, of "Some c"] show ?thesis using True k0 p1 by simp
    next
      case False
      from Cons.IH[of 0 "Some c"] show ?thesis using False k0 by simp
    qed
  qed
qed

lemma count_matches_from_pos:
  "0 < count_matches_from p 0 prev s \<longleftrightarrow> re_search_from p prev s"
proof (induction s arbitrary: prev)
  case Nil
  show ?case
  proof (cases p)
    case Nil
    then show ?thesis by (simp add: match_here_def boundary_def)
  next
    case (Cons a as)
    then show ?thesis by (simp add: match_here_def)
  qed
next
  case (Cons c cs)
  then show ?case by simp
qed

lemma re_sub_no_match: "\<not> re_search_from p prev s \<Longrightarrow> re_sub_from p 0 prev s = s"
  by (induction s arbitrary: prev) auto

lemma blacklist_sorted_descending:
  "sorted_wrt (\<lambda>a b. length (strip b) \<le> length (strip a)) (blacklist_sorted bl)"
proof -
  have "sorted (map (\<lambda>x. - int (length (strip x))) (blacklist_sorted bl))"
    unfolding blacklist_sorted_def by (rule sorted_sort_key)
  then show ?thesis by (simp add: sorted_map)
qed

lemma blacklist_sorted_stable:
  "filter (\<lambda>x. length (strip x) = k) (blacklist_sorted bl) = filter (\<lambda>x. length (strip x) = k) bl"
proof -
  have "filter (\<lambda>y. - int (length (strip y)) = - int k) (sort_key (\<lambda>x. - int (length (strip x))) bl)
      = filter (\<lambda>y. - int (length (strip y)) = - int k) bl"
    by (rule sort_key_stable)
  then show ?thesis by (simp add: blacklist_sorted_def)
qed

lemma blacklist_step_occurs:
  "blacklist_step p (w, a) =
     (if strip p \<noteq> [] \<and> occurs (strip p) w then (re_sub (strip p) w, a @ [strip p]) else (w, a))"
  using re_search_occurs[of "strip p" w] by (simp add: blacklist_step_def Let_def)

lemma re_sub_length:
  assumes "p \<noteq> []"
  shows "length (re_sub p w) + count_matches p w * length p = length w"
  using re_sub_from_length[OF assms, of 0 w None] by (simp add: re_sub_def count_matches_def)

lemma occurs_count: "p \<noteq> [] \<Longrightarrow> occurs p w \<longleftrightarrow> 0 < count_matches p w"
  using re_search_occurs[of p w] count_matches_from_pos[of p None w]
  by (simp add: re_search_def count_matches_def)

lemma split_acc_tokens:
  "\<forall>c\<in>set cur. \<not> is_space c \<Longrightarrow>
   \<forall>t\<in>set (split_acc cur s). t \<noteq> [] \<and> (\<forall>c\<in>set t. \<not> is_space c)"
proof (induction s arbitrary: cur)
  case Nil
  then show ?case by simp
next
  case (Cons a s)
  show ?case
  proof (cases "is_space a")
    case True
    have e: "\<forall>t\<in>set (split_acc [] s). t \<noteq> [] \<and> (\<forall>c\<in>set t. \<not> is_space c)"
      by (rule Cons.IH) simp
    show ?thesis using True e Cons.prems by (cases "cur = []") simp_all
  next
    case False
    have "\<forall>c\<in>set (cur @ [a]). \<not> is_space c" using False Cons.prems by simp
    from Cons.IH[OF this] show ?thesis using False by simp
  qed
qed

lemma no_space_single_spaced: "\<forall>c\<in>set x. \<not> is_space c \<Longrightarrow> single_spaced x"
  by (induction x) (auto simp: single_spaced_def successively_Cons)

lemma join_hd: "y \<noteq> [] \<Longrightarrow> join sep (y # ys) \<noteq> [] \<and> hd (join sep (y # ys)) = hd y"
  by (cases ys) auto

lemma join_tokens:
  assumes "\<forall>t\<in>set ts. t \<noteq> [] \<and> (\<forall>c\<in>set t. \<not> is_space c)"
  shows "plain_spaces (join [32] ts) \<and> single_spaced (join [32] ts) \<and>
         (join [32] ts = [] \<or> (\<not> is_space (hd (join [32] ts)) \<and> \<not> is_space (last (join [32] ts))))"
  using assms
proof (induction "[32::nat]" ts rule: join.induct)
  case 1
  then show ?case by (simp add: plain_spaces_def single_spaced_def)
next
  case (2 x)
  then have ns: "\<forall>c\<in>set x. \<not> is_space c" and ne: "x \<noteq> []" by auto
  have "single_spaced x" using ns by (rule no_space_single_spaced)
  moreover have "\<not> is_space (hd x)" "\<not> is_space (last x)" using ns ne by (cases x, auto)+
  ultimately show ?case using ns by (simp add: plain_spaces_def)
next
  case (3 x y ys)
  then have ns: "\<forall>c\<in>set x. \<not> is_space c" and ne: "x \<noteq> []" and yne: "y \<noteq> []" by auto
  let ?r = "join [32] (y # ys)"
  have ih: "plain_spaces ?r" "single_spaced ?r" "?r \<noteq> []" "\<not> is_space (hd ?r)" "\<not> is_space (last ?r)"
    using 3 join_hd[OF yne, of "[32]" ys] by auto
  have sx: "successively (\<lambda>a b. \<not> (is_space a \<and> is_space b)) x"
    using no_space_single_spaced[OF ns] by (simp add: single_spaced_def)
  have lx: "\<not> is_space (last x)" using ns ne by auto
  have hx: "\<not> is_space (hd x)" using ns ne by (cases x) auto
  have a: "plain_spaces (x @ [32] @ ?r)" using ns ih(1) by (auto simp: plain_spaces_def)
  have b: "single_spaced (x @ [32] @ ?r)"
    using sx ih(2,3,4) lx ne
    by (auto simp: single_spaced_def successively_append_iff successively_Cons)
  have c: "\<not> is_space (hd (x @ [32] @ ?r))" "\<not> is_space (last (x @ [32] @ ?r))"
    using hx ne ih(3,5) by auto
  show ?case using a b c by simp
qed

lemma remove_blacklist_collapsed:
  "plain_spaces (fst (remove_blacklist txt bl)) \<and> single_spaced (fst (remove_blacklist txt bl)) \<and>
   (fst (remove_blacklist txt bl) = [] \<or>
    (\<not> is_space (hd (fst (remove_blacklist txt bl))) \<and> \<not> is_space (last (fst (remove_blacklist txt bl)))))"
proof -
  have s: "u '' '' = [32]" by (simp add: u_def)
  have "\<forall>t\<in>set (split (strip (fst (fold blacklist_step (blacklist_sorted bl) (txt, []))))).
          t \<noteq> [] \<and> (\<forall>c\<in>set t. \<not> is_space c)"
    unfolding split_def by (rule split_acc_tokens) simp
  from join_tokens[OF this] show ?thesis by (simp add: remove_blacklist_def Let_def s)
qed

lemma remove_blacklist_example:
  "remove_blacklist (u ''24 stems bunch roses'') [u ''stems bunch'', u ''bunch'']
     = (u ''24 roses'', [u ''stems bunch''])"
  by (simp add: remove_blacklist_def blacklist_sorted_def blacklist_step_def re_search_def re_sub_def
      match_here_def boundary_def text_defs Let_def)

lemma re_sub_from_set: "set (re_sub_from p k prev s) \<subseteq> set s"
  by (induction p k prev s rule: re_sub_from.induct) auto

lemma isascii_strip: "isascii s \<Longrightarrow> isascii (strip s)"
  using set_strip[of s] by (auto simp: isascii_def)

lemma blacklist_step_isascii: "isascii w \<Longrightarrow> isascii (fst (blacklist_step p (w, a)))"
  using re_sub_from_set[of "strip p" 0 None w]
  by (auto simp: blacklist_step_def Let_def re_sub_def isascii_def)

lemma fold_blacklist_step_isascii:
  "isascii w \<Longrightarrow> isascii (fst (fold blacklist_step ps (w, a)))"
proof (induction ps arbitrary: w a)
  case Nil
  then show ?case by simp
next
  case (Cons p ps)
  obtain w' a' where s: "blacklist_step p (w, a) = (w', a')" by (cases "blacklist_step p (w, a)")
  have "isascii w'" using blacklist_step_isascii[OF Cons.prems, of p a] by (simp add: s)
  from Cons.IH[OF this] show ?case by (simp add: s)
qed

text \<open>
  Claim C6, as amended. The phrases are processed in the order of \<open>blacklist_sorted\<close>:
  by trimmed length, longest first, phrases of the same trimmed length in the order of
  the blacklist. A round of the loop changes the text and the audit exactly when the
  trimmed phrase is not empty and occurs in the current text as a whole word (a word
  boundary at both ends, letters compared without case); it then deletes every match
  that the scan from the left finds, one copy of the phrase for each, and appends the
  trimmed phrase to the audit. The text returned has the whitespace collapsed: single
  spaces between the words and none at the ends. With the blacklist
  \<open>["stems bunch", "bunch"]\<close> the text \<open>24 stems bunch roses\<close> becomes \<open>24 roses\<close>.
  The text and the phrases are ASCII, where the word class and the case mapping are
  those of \<open>re\<close>; every round leaves an ASCII text ASCII, so that the description of
  a round holds of every round of the loop.
\<close>

theorem remove_blacklist_longest_first:
  assumes "isascii txt" and "\<forall>q\<in>set bl. isascii q" and "isascii p" and "isascii w"
  shows
  "sorted_wrt (\<lambda>a b. length (strip b) \<le> length (strip a)) (blacklist_sorted bl) \<and>
   filter (\<lambda>x. length (strip x) = k) (blacklist_sorted bl) = filter (\<lambda>x. length (strip x) = k) bl \<and>
   remove_blacklist txt bl =
     (join (u '' '') (split (strip (fst (fold blacklist_step (blacklist_sorted bl) (txt, []))))),
      snd (fold blacklist_step (blacklist_sorted bl) (txt, []))) \<and>
   blacklist_step p (w, a) =
     (if strip p \<noteq> [] \<and> occurs (strip p) w then (re_sub (strip p) w, a @ [strip p]) else (w, a)) \<and>
   isascii (fst (blacklist_step p (w, a))) \<and>
   isascii (fst (fold blacklist_step (blacklist_sorted bl) (txt, []))) \<and>
   (strip p \<noteq> [] \<longrightarrow>
      length (re_sub (strip p) w) + count_matches (strip p) w * length (strip p) = length w \<and>
      (occurs (strip p) w \<longleftrightarrow> 0 < count_matches (strip p) w)) \<and>
   plain_spaces (fst (remove_blacklist txt bl)) \<and> single_spaced (fst (remove_blacklist txt bl)) \<and>
   (fst (remove_blacklist txt bl) = [] \<or>
    (\<not> is_space (hd (fst (remove_blacklist txt bl))) \<and> \<not> is_space (last (fst (remove_blacklist txt bl))))) \<and>
   remove_blacklist (u ''24 stems bunch roses'') [u ''stems bunch'', u ''bunch'']
     = (u ''24 roses'', [u ''stems bunch''])"
proof -
  have c3: "remove_blacklist txt bl =
     (join (u '' '') (split (strip (fst (fold blacklist_step (blacklist_sorted bl) (txt, []))))),
      snd (fold blacklist_step (blacklist_sorted bl) (txt, [])))"
    by (simp add: remove_blacklist_def Let_def)
  have c5: "strip p \<noteq> [] \<longrightarrow>
      length (re_sub (strip p) w) + count_matches (strip p) w * length (strip p) = length w \<and>
      (occurs (strip p) w \<longleftrightarrow> 0 < count_matches (strip p) w)"
    using re_sub_length[of "strip p" w] occurs_count[of "strip p" w] by blast
  show ?thesis
    using blacklist_sorted_descending[of bl] blacklist_sorted_stable[of k bl] c3
      blacklist_step_occurs[of p w a] blacklist_step_isascii[OF assms(4), of p a]
      fold_blacklist_step_isascii[OF assms(1), of "blacklist_sorted bl" "[]"]
      c5 remove_blacklist_collapsed[of "txt" bl] remove_blacklist_example
    by (intro conjI) (blast+)
qed

theorem remove_blacklist_longest_first_witness:
  "isascii (u ''24 Stems bunch roses'') \<and> isascii (u ''bunch'') \<and>
   occurs (u ''bunch'') (u ''24 Stems bunch roses'') \<and>
   length (re_sub (u ''bunch'') (u ''24 Stems bunch roses'')) = 15 \<and>
   remove_blacklist (u ''24 Stems bunch roses'') [u ''bunch'', u '' STEMS BUNCH '']
     = (u ''24 roses'', [u ''STEMS BUNCH''])"
proof -
  have h: "isascii (u ''24 Stems bunch roses'')"
     "\<forall>q\<in>set [u ''bunch'', u '' STEMS BUNCH '']. isascii q" "isascii (u ''bunch'')"
    by (simp_all add: isascii_def u_def)
  note T = remove_blacklist_longest_first[OF h(1) h(2) h(3) h(1), of 5 "[]"]
  have ne: "strip (u ''bunch'') \<noteq> []" by (simp add: text_defs)
  have s: "strip (u ''bunch'') = u ''bunch''"
    "count_matches (u ''bunch'') (u ''24 Stems bunch roses'') = 1"
    "length (u ''24 Stems bunch roses'') = 20" "length (u ''bunch'') = 5"
    by (simp_all add: count_matches_def match_here_def boundary_def text_defs)
  from T ne have
    "length (re_sub (strip (u ''bunch'')) (u ''24 Stems bunch roses''))
       + count_matches (strip (u ''bunch'')) (u ''24 Stems bunch roses'') * length (strip (u ''bunch''))
       = length (u ''24 Stems bunch roses'') \<and>
     (occurs (strip (u ''bunch'')) (u ''24 Stems bunch roses'')
        \<longleftrightarrow> 0 < count_matches (strip (u ''bunch'')) (u ''24 Stems bunch roses''))"
    by blast
  then have a: "occurs (u ''bunch'') (u ''24 Stems bunch roses'')"
    and b: "length (re_sub (u ''bunch'') (u ''24 Stems bunch roses'')) = 15"
    by (simp_all add: s)
  have e: "blacklist_sorted [u ''bunch'', u '' STEMS BUNCH ''] = [u '' STEMS BUNCH '', u ''bunch'']"
    by (simp add: blacklist_sorted_def text_defs)
  have f: "fold blacklist_step [u '' STEMS BUNCH '', u ''bunch''] (u ''24 Stems bunch roses'', [])
      = (u ''24  roses'', [u ''STEMS BUNCH''])"
    by (simp add: blacklist_step_def re_search_def re_sub_def match_here_def boundary_def text_defs Let_def)
  from T have "remove_blacklist (u ''24 Stems bunch roses'') [u ''bunch'', u '' STEMS BUNCH ''] =
     (join (u '' '') (split (strip (fst (fold blacklist_step
          (blacklist_sorted [u ''bunch'', u '' STEMS BUNCH '']) (u ''24 Stems bunch roses'', []))))),
      snd (fold blacklist_step (blacklist_sorted [u ''bunch'', u '' STEMS BUNCH ''])
          (u ''24 Stems bunch roses'', [])))"
    by (elim conjE)
  then have c: "remove_blacklist (u ''24 Stems bunch roses'') [u ''bunch'', u '' STEMS BUNCH '']
     = (u ''24 roses'', [u ''STEMS BUNCH''])"
    unfolding e f by (simp add: text_defs)
  show ?thesis using h(1) h(3) a b c by (intro conjI)
qed

text \<open>
  Claim C6 as stated fails. Two phrases of the same trimmed length are processed one
  after the other, in the order of the blacklist, so that the lengths do not descend
  strictly. And the removal is one scan: in \<open>a-a-+b+b\<close> the phrase \<open>a-+b\<close> matches once,
  in the middle; deleting it joins the ends into the phrase itself, which stays in the
  returned text.
\<close>

theorem remove_blacklist_counterexample:
  "blacklist_sorted [u ''ab'', u ''cd''] = [u ''ab'', u ''cd''] \<and>
   \<not> sorted_wrt (\<lambda>a b. length (strip b) < length (strip a)) (blacklist_sorted [u ''ab'', u ''cd'']) \<and>
   remove_blacklist (u ''a-a-+b+b'') [u ''a-+b''] = (u ''a-+b'', [u ''a-+b''])"
proof -
  have 1: "blacklist_sorted [u ''ab'', u ''cd''] = [u ''ab'', u ''cd'']"
    by (simp add: blacklist_sorted_def text_defs)
  have 2: "\<not> sorted_wrt (\<lambda>a b. length (strip b) < length (strip a)) (blacklist_sorted [u ''ab'', u ''cd''])"
    unfolding 1 by (simp add: text_defs)
  have 3: "remove_blacklist (u ''a-a-+b+b'') [u ''a-+b''] = (u ''a-+b'', [u ''a-+b''])"
    by (simp add: remove_blacklist_def blacklist_sorted_def blacklist_step_def re_search_def re_sub_def
      match_here_def boundary_def text_defs Let_def)
  show ?thesis using 1 2 3 by (intro conjI)
qed

section \<open>process_files\<close>

lemma status_fold_snoc:
  "fold status_step (ks @ [k]) st = status_step k (fold status_step ks st)"
  by simp

lemma status_fold_invariant:
  "fst (fold status_step ks ({}, [])) = set ks \<and>
   length (snd (fold status_step ks ({}, []))) = length ks \<and>
   (\<forall>i<length ks. snd (fold status_step ks ({}, [])) ! i =
        (if ks ! i \<in> set (take i ks) then NN_status else PENDING))"
proof (induction ks rule: rev_induct)
  case Nil
  then show ?case by simp
next
  case (snoc k ks)
  obtain seen acc where f: "fold status_step ks ({}, []) = (seen, acc)" by (cases "fold status_step ks ({}, [])")
  from snoc f have s: "seen = set ks" and l: "length acc = length ks"
    and n: "\<forall>i<length ks. acc ! i = (if ks ! i \<in> set (take i ks) then NN_status else PENDING)"
    by simp_all
  have g: "fold status_step (ks @ [k]) ({}, []) =
      (if k \<in> seen then (seen, acc @ [NN_status]) else (insert k seen, acc @ [PENDING]))"
    by (simp add: f status_step_def)
  have a: "fst (fold status_step (ks @ [k]) ({}, [])) = set (ks @ [k])"
    unfolding g using s by auto
  have b: "length (snd (fold status_step (ks @ [k]) ({}, []))) = length (ks @ [k])"
    unfolding g using l by simp
  have c: "snd (fold status_step (ks @ [k]) ({}, [])) ! i =
        (if (ks @ [k]) ! i \<in> set (take i (ks @ [k])) then NN_status else PENDING)"
    if "i < length (ks @ [k])" for i
  proof (cases "i < length ks")
    case True
    then show ?thesis unfolding g using n l by (simp add: nth_append)
  next
    case False
    with that have "i = length ks" by simp
    then show ?thesis unfolding g using s l by (simp add: nth_append)
  qed
  show ?case using a b c by blast
qed

lemma mark_duplicates_length: "length (mark_duplicates df1) = length df1"
  using status_fold_invariant[of "map duplicate_key df1"] by (simp add: mark_duplicates_def)

lemma mark_duplicates_nth:
  assumes "i < length df1"
  shows "mark_duplicates df1 ! i =
     (if \<exists>j<i. duplicate_key (df1 ! j) = duplicate_key (df1 ! i) then NN_status else PENDING)"
proof -
  have "set (take i (map duplicate_key df1)) = {duplicate_key (df1 ! j) |j. j < i}"
  proof -
    have "take i (map duplicate_key df1) = map (\<lambda>j. duplicate_key (df1 ! j)) [0..<i]"
      using assms by (intro nth_equalityI) simp_all
    then show ?thesis by auto
  qed
  then have "map duplicate_key df1 ! i \<in> set (take i (map duplicate_key df1)) \<longleftrightarrow>
      (\<exists>j<i. duplicate_key (df1 ! j) = duplicate_key (df1 ! i))"
    using assms by auto
  then show ?thesis
    using status_fold_invariant[of "map duplicate_key df1"] assms by (simp add: mark_duplicates_def)
qed

lemma process_files_Inr:
  assumes "process_files fuzz nfd df1 df2 syn bl client_id = Inr out"
  shows "out =
     (let transformed = map (\<lambda>(st, row). transform_row nfd syn bl st row) (zip (mark_duplicates df1) df1);
          df2_work = prepare_catalog nfd df2;
          df1_work = map (\<lambda>(row, (inp, sy, rem), res).
                               \<lparr>source = row, cleaned_input = inp, applied_synonyms = sy,
                                removed_blacklist_words = rem, enrichment = res\<rparr>)
                         (zip df1 (zip transformed (naive_matching fuzz (map fst transformed) df2_work)));
          df_to_save = filter (\<lambda>r. cleaned_input r \<noteq> NN) df1_work
      in \<lparr>frame = df1_work,
          engine_calls = snd (perform_enhanced_matching fuzz (map fst transformed) df2_work),
          saved = (if client_id \<noteq> None \<and> client_id \<noteq> Some [] \<and> df_to_save \<noteq> []
                          then Some df_to_save else None)\<rparr>)"
proof -
  let ?t = "map (\<lambda>(st, row). transform_row nfd syn bl st row) (zip (mark_duplicates df1) df1)"
  let ?c = "prepare_catalog nfd df2"
  have ne: "\<not> (df1 = [] \<or> df2 = [])" "\<not> (\<exists>cs\<in>set df2. length cs < 4)"
    using assms by (auto simp: process_files_def split: if_splits)
  have 1: "fst (perform_enhanced_matching fuzz (map fst ?t) ?c) = naive_matching fuzz (map fst ?t) ?c"
    using perform_enhanced_matching_facts[of fuzz "map fst ?t" ?c] by (elim conjE)
  have "process_files fuzz nfd df1 df2 syn bl client_id = Inr
     (let transformed = ?t;
          df2_work = prepare_catalog nfd df2;
          df1_work = map (\<lambda>(row, (inp, sy, rem), res).
                               \<lparr>source = row, cleaned_input = inp, applied_synonyms = sy,
                                removed_blacklist_words = rem, enrichment = res\<rparr>)
                         (zip df1 (zip transformed (naive_matching fuzz (map fst transformed) df2_work)));
          df_to_save = filter (\<lambda>r. cleaned_input r \<noteq> NN) df1_work
      in \<lparr>frame = df1_work,
          engine_calls = snd (perform_enhanced_matching fuzz (map fst transformed) df2_work),
          saved = (if client_id \<noteq> None \<and> client_id \<noteq> Some [] \<and> df_to_save \<noteq> []
                          then Some df_to_save else None)\<rparr>)"
    unfolding process_files_def Let_def case_prod_beta[of _ "perform_enhanced_matching _ _ _"] 1
    using ne by (simp only: if_False)
  with assms show ?thesis by simp
qed

lemma process_files_frame_length:
  assumes "process_files fuzz nfd df1 df2 syn bl client_id = Inr out"
  shows "length (frame out) = length df1"
  unfolding process_files_Inr[OF assms] Let_def
  by (simp add: mark_duplicates_length naive_matching_def)

lemma process_files_frame_nth:
  assumes "process_files fuzz nfd df1 df2 syn bl client_id = Inr out" and i: "i < length df1"
  shows "frame out ! i =
      (let t = transform_row nfd syn bl (mark_duplicates df1 ! i) (df1 ! i)
       in \<lparr>source = df1 ! i, cleaned_input = fst t, applied_synonyms = fst (snd t),
           removed_blacklist_words = snd (snd t),
           enrichment = (if fst t = NN then duplicate_result
                         else applied_result
                                (fst (intelligent_fuzzy_match fuzz (fst t)
                                        (map search_key (prepare_catalog nfd df2))
                                        (prepare_catalog nfd df2))))\<rparr>)"
proof -
  note o = process_files_Inr[OF assms(1)]
  show "frame out ! i =
      (let t = transform_row nfd syn bl (mark_duplicates df1 ! i) (df1 ! i)
       in \<lparr>source = df1 ! i, cleaned_input = fst t, applied_synonyms = fst (snd t),
           removed_blacklist_words = snd (snd t),
           enrichment = (if fst t = NN then duplicate_result
                         else applied_result
                                (fst (intelligent_fuzzy_match fuzz (fst t)
                                        (map search_key (prepare_catalog nfd df2))
                                        (prepare_catalog nfd df2))))\<rparr>)"
    unfolding o Let_def using i
    by (simp add: mark_duplicates_length naive_matching_def split_beta)
qed

text \<open>
  What holds of every batch that \<open>process_files\<close> accepts. The frame keeps the
  rows in their positions. A row whose key was borne by an earlier row is emitted with the
  cleaned text \<open>NN\<close>, empty audit columns and the empty result of a duplicate.
  The text \<open>NN\<close> is never handed to \<open>intelligent_fuzzy_match\<close>, and
  no row with that cleaned text is saved; the rows with another cleaned text are saved
  when there is one and the client identifier is a string that is not empty. A row that
  bears its key first is transformed by the pipeline; it is matched unless its cleaned
  text is \<open>NN\<close>. The descriptions, the vendor names and the rules are ASCII.
\<close>

lemma process_files_duplicates:
  assumes r: "process_files fuzz nfd df1 df2 syn bl client_id = Inr out"
    and "\<forall>row\<in>set df1. isascii (vendor_product_description row) \<and> isascii (vendor_name row)"
    and "\<forall>(k, v)\<in>set syn. isascii k \<and> isascii v" and "\<forall>p\<in>set bl. isascii p"
  shows "length (frame out) = length df1"
    and "\<forall>i<length df1. (\<exists>j<i. duplicate_key (df1 ! j) = duplicate_key (df1 ! i)) \<longrightarrow>
           frame out ! i =
             \<lparr>source = df1 ! i, cleaned_input = NN, applied_synonyms = [],
              removed_blacklist_words = [], enrichment = duplicate_result\<rparr>"
    and "NN \<notin> set (engine_calls out)"
    and "saved out =
           (if client_id \<noteq> None \<and> client_id \<noteq> Some [] \<and>
               filter (\<lambda>r. cleaned_input r \<noteq> NN) (frame out) \<noteq> []
            then Some (filter (\<lambda>r. cleaned_input r \<noteq> NN) (frame out)) else None)"
    and "\<forall>i<length df1. \<not> (\<exists>j<i. duplicate_key (df1 ! j) = duplicate_key (df1 ! i)) \<longrightarrow>
           frame out ! i =
             (let t = transform_row nfd syn bl PENDING (df1 ! i)
              in \<lparr>source = df1 ! i, cleaned_input = fst t, applied_synonyms = fst (snd t),
                  removed_blacklist_words = snd (snd t),
                  enrichment = (if fst t = NN then duplicate_result
                                else applied_result
                                       (fst (intelligent_fuzzy_match fuzz (fst t)
                                               (map search_key (prepare_catalog nfd df2))
                                               (prepare_catalog nfd df2))))\<rparr>)"
    and "set (engine_calls out) = cleaned_input ` set (frame out) - {NN}"
    and "distinct (engine_calls out)"
proof -
  note o = process_files_Inr[OF r]
  let ?t = "map (\<lambda>(st, row). transform_row nfd syn bl st row) (zip (mark_duplicates df1) df1)"
  let ?c = "prepare_catalog nfd df2"
  note F = perform_enhanced_matching_facts[of fuzz "map fst ?t" ?c]
  show "length (frame out) = length df1" by (rule process_files_frame_length[OF r])
  show "\<forall>i<length df1. (\<exists>j<i. duplicate_key (df1 ! j) = duplicate_key (df1 ! i)) \<longrightarrow>
           frame out ! i =
             \<lparr>source = df1 ! i, cleaned_input = NN, applied_synonyms = [],
              removed_blacklist_words = [], enrichment = duplicate_result\<rparr>"
  proof (intro allI impI)
    fix i assume i: "i < length df1" and d: "\<exists>j<i. duplicate_key (df1 ! j) = duplicate_key (df1 ! i)"
    have m: "mark_duplicates df1 ! i = NN_status" using mark_duplicates_nth[OF i] d by simp
    show "frame out ! i =
             \<lparr>source = df1 ! i, cleaned_input = NN, applied_synonyms = [],
              removed_blacklist_words = [], enrichment = duplicate_result\<rparr>"
      unfolding process_files_frame_nth[OF r i] m by (simp add: transform_row_def)
  qed
  show "\<forall>i<length df1. \<not> (\<exists>j<i. duplicate_key (df1 ! j) = duplicate_key (df1 ! i)) \<longrightarrow>
           frame out ! i =
             (let t = transform_row nfd syn bl PENDING (df1 ! i)
              in \<lparr>source = df1 ! i, cleaned_input = fst t, applied_synonyms = fst (snd t),
                  removed_blacklist_words = snd (snd t),
                  enrichment = (if fst t = NN then duplicate_result
                                else applied_result
                                       (fst (intelligent_fuzzy_match fuzz (fst t)
                                               (map search_key (prepare_catalog nfd df2))
                                               (prepare_catalog nfd df2))))\<rparr>)"
  proof (intro allI impI)
    fix i assume i: "i < length df1" and d: "\<not> (\<exists>j<i. duplicate_key (df1 ! j) = duplicate_key (df1 ! i))"
    have m: "mark_duplicates df1 ! i = PENDING" using mark_duplicates_nth[OF i] d by simp
    show "frame out ! i =
             (let t = transform_row nfd syn bl PENDING (df1 ! i)
              in \<lparr>source = df1 ! i, cleaned_input = fst t, applied_synonyms = fst (snd t),
                  removed_blacklist_words = snd (snd t),
                  enrichment = (if fst t = NN then duplicate_result
                                else applied_result
                                       (fst (intelligent_fuzzy_match fuzz (fst t)
                                               (map search_key (prepare_catalog nfd df2))
                                               (prepare_catalog nfd df2))))\<rparr>)"
      unfolding process_files_frame_nth[OF r i] m by (rule refl)
  qed
  have e: "engine_calls out = snd (perform_enhanced_matching fuzz (map fst ?t) ?c)"
    unfolding o Let_def by simp
  show "NN \<notin> set (engine_calls out)" unfolding e using F by simp
  show "distinct (engine_calls out)" unfolding e using F by simp
  show "saved out =
           (if client_id \<noteq> None \<and> client_id \<noteq> Some [] \<and>
               filter (\<lambda>r. cleaned_input r \<noteq> NN) (frame out) \<noteq> []
            then Some (filter (\<lambda>r. cleaned_input r \<noteq> NN) (frame out)) else None)"
    unfolding o Let_def by simp
  have len: "length ?t = length df1" "length (naive_matching fuzz (map fst ?t) ?c) = length df1"
    by (simp_all add: mark_duplicates_length naive_matching_def)
  have "map cleaned_input (frame out) = map fst ?t"
    unfolding o Let_def using len
    by (intro nth_equalityI) (simp_all add: split_beta)
  then have "cleaned_input ` set (frame out) = set (map fst ?t)"
    by (metis set_map)
  then show "set (engine_calls out) = cleaned_input ` set (frame out) - {NN}"
    unfolding e using F by simp
qed

lemma collision_transform:
  "transform_row id [(u ''x'', u ''NN'')] [] PENDING collision_row = (u ''NN'', u ''x'' @ [8594] @ u ''NN'', [])"
  "transform_row id [] [] PENDING collision_row = (u ''x'', [], [])"
  by (simp_all add: transform_row_def collision_row_def clean_text_def apply_synonyms_def
      synonyms_lower_def synonym_step_def remove_blacklist_def blacklist_sorted_def
      format_applied_def text_defs Let_def)

lemma collision_marks: "mark_duplicates [collision_row] = [PENDING]"
  by (simp add: mark_duplicates_def status_step_def)

text \<open>
  Claim C4. The first row bearing a key is not always processed normally: the mark of a
  duplicate is the cleaned text \<open>NN\<close> itself. A row that bears its key first
  (status \<open>PENDING\<close>) and whose description the synonyms rewrite to
  \<open>NN\<close> is given the result of a duplicate, is not handed to
  \<open>intelligent_fuzzy_match\<close>, and is left out of the rows that are saved;
  without that synonym the same row is matched and saved.
\<close>

theorem process_files_sentinel_collision:
  "mark_duplicates [collision_row] = [PENDING] \<and>
   process_files fuzz id [collision_row] sample_cells [(u ''x'', u ''NN'')] [] (Some (u ''c1'')) =
     Inr \<lparr>frame = [\<lparr>source = collision_row, cleaned_input = u ''NN'',
                      applied_synonyms = u ''x'' @ [8594] @ u ''NN'',
                      removed_blacklist_words = [], enrichment = duplicate_result\<rparr>],
          engine_calls = [], saved = None\<rparr> \<and>
   (\<exists>out. process_files fuzz id [collision_row] sample_cells [] [] (Some (u ''c1'')) = Inr out \<and>
          engine_calls out = [u ''x''] \<and> saved out = Some (frame out))"
proof -
  have n: "NN = u ''NN''" "u ''x'' \<noteq> u ''NN''" "u ''c1'' \<noteq> []" by (simp_all add: NN_def u_def)
  have c: "sample_cells \<noteq> []" "\<not> (\<exists>cs\<in>set sample_cells. length cs < 4)"
    by (simp_all add: sample_cells_def)
  have 1: "process_files fuzz id [collision_row] sample_cells [(u ''x'', u ''NN'')] [] (Some (u ''c1'')) =
     Inr \<lparr>frame = [\<lparr>source = collision_row, cleaned_input = u ''NN'',
                      applied_synonyms = u ''x'' @ [8594] @ u ''NN'',
                      removed_blacklist_words = [], enrichment = duplicate_result\<rparr>],
          engine_calls = [], saved = None\<rparr>"
    unfolding process_files_def
    by (simp add: c collision_marks collision_transform perform_enhanced_matching_def
        matching_step_def n Let_def)
  have 2: "\<exists>out. process_files fuzz id [collision_row] sample_cells [] [] (Some (u ''c1'')) = Inr out \<and>
          engine_calls out = [u ''x''] \<and> saved out = Some (frame out)"
    unfolding process_files_def
    by (simp add: c collision_marks collision_transform perform_enhanced_matching_def
        matching_step_def n Let_def)
  show ?thesis using collision_marks 1 2 by (intro conjI)
qed

end
